theory Spec2Isabelle
  imports Main "HOL-Library.Sublist"
begin

section \<open>The trie of words.c and its two queries\<close>

text \<open>
  The program keeps a dictionary of lowercase words in a prefix tree and asks, for a
  word, whether it is a concatenation of dictionary words. This theory embeds the
  functions \<open>create\<close>, \<open>insertWord\<close>, \<open>isLeafBreak\<close>, \<open>concatWord\<close>, \<open>ReadWordFile\<close>
  and the reporting loop of \<open>main\<close>; \<open>words.c\<close> and \<open>words.cpp\<close> agree on all of them.

  Conventions of the embedding.
  \<^item> A node is \<open>Trie isLeaf character\<close>. The array \<open>character[CHAR_SIZE]\<close> is a function
    from the slot index to the optional child; only the indices \<open>0 .. CHAR_SIZE - 1\<close>
    are inside the array, and every access of the model is guarded by \<open>in_alphabet\<close>.
    The tree is strict (no sharing), so the in-place updates of the source are
    functional updates of the value.
  \<^item> A C string is the list of its characters before the terminating NUL.
  \<^item> The positions \<open>start\<close>, \<open>end\<close>, \<open>mid\<close>, \<open>i\<close> are C \<open>int\<close>s, modelled as \<open>int\<close>;
    the one increment that can leave the type (\<open>i++\<close> at \<open>INT_MAX\<close>) is written out.
  \<^item> A result \<open>None\<close> stands for undefined behaviour of the C program: an array
    index outside \<open>character\<close>, a read outside the string, a signed overflow.
  \<^item> A by-reference out-parameter is returned next to the return value:
    \<open>isLeafBreak\<close> yields (return value, final \<open>mid\<close>), \<open>concatWord\<close> yields
    (return value, final \<open>result\<close>).
\<close>

datatype trie = Trie (isLeaf: bool) (character: "int \<Rightarrow> trie option")

definition CHAR_SIZE :: int where
  "CHAR_SIZE = 26"

definition INT_MAX :: int where
  "INT_MAX = 2147483647"

text \<open>\<open>str[0] - 'a'\<close>: the characters are promoted to \<open>int\<close> before the subtraction.\<close>

definition char_index :: "char \<Rightarrow> int" where
  "char_index c = int (of_char c) - int (of_char CHR ''a'')"

definition in_alphabet :: "int \<Rightarrow> bool" where
  "in_alphabet ch \<longleftrightarrow> 0 \<le> ch \<and> ch < CHAR_SIZE"

text \<open>
  \<open>create\<close> is only ever called with a null pointer, so it allocates: the result is a
  fresh node with \<open>isLeaf = false\<close> and every slot null.
\<close>

definition create :: trie where
  "create = Trie False (\<lambda>i. None)"

text \<open>
  \<open>insertWord\<close>: at the end of the string (the list is exhausted, or, for a list that
  holds a NUL, at that NUL) the node becomes a leaf; otherwise the edge of the first
  character is created when it is null and the rest of the word is inserted below it.
\<close>

fun insertWord :: "trie \<Rightarrow> string \<Rightarrow> trie option" where
  "insertWord node [] = Some (Trie True (character node))"
| "insertWord node (c # str) =
     (if c = CHR 0x00 then Some (Trie True (character node))
      else
        let ch = char_index c in
        if in_alphabet ch then
          (case insertWord (case character node ch of None \<Rightarrow> create | Some edge \<Rightarrow> edge) str of
             None \<Rightarrow> None
           | Some edge \<Rightarrow> Some (Trie (isLeaf node) ((character node)(ch := Some edge))))
        else None)"

text \<open>
  The loop of \<open>isLeafBreak\<close>, from position \<open>i\<close> with \<open>subnode\<close> the node reached so far.
  Reading \<open>*pch\<close> at a position outside the string, or at a character outside
  \<open>'a'..'z'\<close> (the terminating NUL included), indexes \<open>character\<close> out of bounds.
\<close>

function isLeafBreak_loop :: "trie \<Rightarrow> string \<Rightarrow> int \<Rightarrow> int \<Rightarrow> int \<Rightarrow> (bool \<times> int) option" where
  "isLeafBreak_loop subnode str i end mid =
     (if i \<le> end then
        (if 0 \<le> i \<and> i < int (length str) \<and> in_alphabet (char_index (str ! nat i)) then
           (case character subnode (char_index (str ! nat i)) of
              None \<Rightarrow> Some (False, mid)
            | Some child \<Rightarrow>
                if i \<ge> mid \<and> isLeaf child then Some (True, i)
                else if i = INT_MAX then None
                else isLeafBreak_loop child str (i + 1) end mid)
         else None)
      else Some (isLeaf subnode, end))"
  by pat_completeness auto
termination
  by (relation "measure (\<lambda>(subnode, str, i, end, mid). nat (end + 1 - i))") auto

declare isLeafBreak_loop.simps [simp del]

definition isLeafBreak :: "trie \<Rightarrow> string \<Rightarrow> int \<Rightarrow> int \<Rightarrow> int \<Rightarrow> (bool \<times> int) option" where
  "isLeafBreak node str start end mid = isLeafBreak_loop node str start end mid"

lemma isLeafBreak_loop_mid_mono:
  "isLeafBreak_loop subnode str i end mid = Some (b, mid') \<Longrightarrow> mid \<le> end \<Longrightarrow> mid \<le> mid'"
proof (induction subnode str i "end" mid rule: isLeafBreak_loop.induct)
  case (1 subnode str i "end" mid)
  then show ?case
    by (subst (asm) (2) isLeafBreak_loop.simps) (auto split: if_splits option.splits)
qed

text \<open>
  \<open>concatWord\<close>. The loop variable \<open>i\<close> is handed to \<open>isLeafBreak\<close> by reference, so the
  test \<open>i == end\<close>, the recursive call on \<open>i + 1\<close> and the increment of the \<open>for\<close> loop
  all see the value that \<open>isLeafBreak\<close> left in it. \<open>result\<close> is set to \<open>false\<close> on entry
  and is the second component of the value returned here. The value that
  \<open>isLeafBreak\<close> leaves is at most \<open>end\<close>, and \<open>i + 1\<close> is computed only when it differs from
  \<open>end\<close>, so these increments stay inside \<open>int\<close>.
\<close>

function concatWord_loop :: "trie \<Rightarrow> string \<Rightarrow> int \<Rightarrow> int \<Rightarrow> int \<Rightarrow> (int \<times> bool) option"
  and concatWord :: "trie \<Rightarrow> string \<Rightarrow> int \<Rightarrow> int \<Rightarrow> (int \<times> bool) option" where
  "concatWord_loop node str start end i =
     (if i \<le> end then
        (case isLeafBreak node str start end i of
           None \<Rightarrow> None
         | Some (bPartOne, i') \<Rightarrow>
             if i' = end then Some (if bPartOne then 1 else 0, bPartOne)
             else
               (case concatWord node str (i' + 1) end of
                  None \<Rightarrow> None
                | Some (cntWords, bPartTwo) \<Rightarrow>
                    if bPartOne \<and> bPartTwo then Some (1 + cntWords, True)
                    else concatWord_loop node str start end (i' + 1)))
      else Some (0, False))"
| "concatWord node str start end =
     (if start > end then Some (0, False)
      else concatWord_loop node str start end start)"
  by pat_completeness auto
termination
proof (relation "measure (\<lambda>x. case x of
          Inl (node, str, start, end, i) \<Rightarrow> 2 * nat (end + 1 - i)
        | Inr (node, str, start, end) \<Rightarrow> 2 * nat (end + 1 - start) + 1)", goal_cases)
  case 1
  show ?case by simp
next
  case (2 node str start "end" i x2 bPartOne i')
  then have "i \<le> i'"
    using isLeafBreak_loop_mid_mono [of node str start "end" i bPartOne i']
    by (simp add: isLeafBreak_def)
  with 2 show ?case by simp
next
  case (3 node str start "end" i x2 bPartOne i' x2a cntWords bPartTwo)
  then have "i \<le> i'"
    using isLeafBreak_loop_mid_mono [of node str start "end" i bPartOne i']
    by (simp add: isLeafBreak_def)
  with 3 show ?case by simp
next
  case (4 node str start "end")
  then show ?case by simp
qed

declare concatWord_loop.simps [simp del] concatWord.simps [simp del]

text \<open>
  \<open>ReadWordFile\<close>, on the words that the stream iterator yields: every word is
  inserted into the trie, appended to the list of the words of its length, and its
  length is added to the set of lengths. The state is
  (\<open>root\<close>, \<open>wordsWithSameLen\<close>, \<open>LengthSet\<close>, \<open>cntWords\<close>); an absent key of the map is
  the empty list, which is what \<open>operator[]\<close> creates.
\<close>

type_synonym loaded = "trie \<times> (nat \<Rightarrow> string list) \<times> nat set \<times> int"

fun ReadWordFile_loop :: "string list \<Rightarrow> loaded \<Rightarrow> loaded option" where
  "ReadWordFile_loop [] st = Some st"
| "ReadWordFile_loop (w # ws) (root, wordsWithSameLen, LengthSet, cntWords) =
     (case insertWord root w of
        None \<Rightarrow> None
      | Some root' \<Rightarrow>
          ReadWordFile_loop ws
            (root',
             wordsWithSameLen(length w := wordsWithSameLen (length w) @ [w]),
             insert (length w) LengthSet,
             cntWords + 1))"

definition ReadWordFile :: "string list \<Rightarrow> loaded option" where
  "ReadWordFile ws = ReadWordFile_loop ws (create, (\<lambda>len. []), {}, 0)"

text \<open>
  The reporting loops of \<open>main\<close>. \<open>report_words\<close> is the inner loop over the words of one
  length, \<open>report_lengths\<close> the outer loop over the lengths; the value is the list of the
  lines written to the output file, in the order they are written.
\<close>

fun report_words :: "trie \<Rightarrow> string list \<Rightarrow> string list option" where
  "report_words root [] = Some []"
| "report_words root (w # dict) =
     (case concatWord root w 0 (int (length w) - 1) of
        None \<Rightarrow> None
      | Some (cntConcat, found) \<Rightarrow>
          (case report_words root dict of
             None \<Rightarrow> None
           | Some out \<Rightarrow> Some (if found \<and> cntConcat > 1 then w # out else out)))"

fun report_lengths :: "trie \<Rightarrow> (nat \<Rightarrow> string list) \<Rightarrow> nat list \<Rightarrow> string list option" where
  "report_lengths root wordsWithSameLen [] = Some []"
| "report_lengths root wordsWithSameLen (len # lens) =
     (case report_words root (wordsWithSameLen len) of
        None \<Rightarrow> None
      | Some out \<Rightarrow>
          (case report_lengths root wordsWithSameLen lens of
             None \<Rightarrow> None
           | Some rest \<Rightarrow> Some (out @ rest)))"

text \<open>The reverse iteration over the ordered set visits its elements in descending order.\<close>

definition main_output :: "string list \<Rightarrow> string list option" where
  "main_output ws =
     (case ReadWordFile ws of
        None \<Rightarrow> None
      | Some (root, wordsWithSameLen, LengthSet, cntWords) \<Rightarrow>
          report_lengths root wordsWithSameLen (rev (sorted_list_of_set LengthSet)))"

text \<open>The test of the reporting loop: \<open>found && cntConcat > 1\<close>.\<close>

definition qualifies :: "trie \<Rightarrow> string \<Rightarrow> bool" where
  "qualifies root w =
     (case concatWord root w 0 (int (length w) - 1) of
        None \<Rightarrow> False
      | Some (cntConcat, found) \<Rightarrow> found \<and> cntConcat > 1)"

section \<open>Notions of the specification\<close>

text \<open>A lowercase word: every character is one of \<open>'a'..'z'\<close>.\<close>

definition lowercase :: "string \<Rightarrow> bool" where
  "lowercase w = list_all (\<lambda>c. in_alphabet (char_index c)) w"

text \<open>The trie after inserting the words of a list, one after the other.\<close>

fun insertWords :: "trie \<Rightarrow> string list \<Rightarrow> trie option" where
  "insertWords node [] = Some node"
| "insertWords node (w # ws) =
     (case insertWord node w of None \<Rightarrow> None | Some node' \<Rightarrow> insertWords node' ws)"

text \<open>
  The node reached from a node along the edges that spell a string, when all of them
  exist; and whether that node exists and is a leaf.
\<close>

fun walk :: "trie \<Rightarrow> string \<Rightarrow> trie option" where
  "walk node [] = Some node"
| "walk node (c # s) =
     (if in_alphabet (char_index c) then
        (case character node (char_index c) of None \<Rightarrow> None | Some child \<Rightarrow> walk child s)
      else None)"

definition reachable :: "trie \<Rightarrow> string \<Rightarrow> bool" where
  "reachable node s = (case walk node s of None \<Rightarrow> False | Some n \<Rightarrow> True)"

definition terminal :: "trie \<Rightarrow> string \<Rightarrow> bool" where
  "terminal node s = (case walk node s of None \<Rightarrow> False | Some n \<Rightarrow> isLeaf n)"

text \<open>The characters of a string at the positions \<open>start..end\<close>, both included.\<close>

definition substring :: "string \<Rightarrow> int \<Rightarrow> int \<Rightarrow> string" where
  "substring str start end = take (nat (end + 1 - start)) (drop (nat start) str)"

text \<open>A range inside the word, whose positions are below \<open>INT_MAX\<close>.\<close>

definition valid_range :: "string \<Rightarrow> int \<Rightarrow> int \<Rightarrow> bool" where
  "valid_range str start end \<longleftrightarrow> 0 \<le> start \<and> start \<le> end \<and> end < int (length str) \<and> end < INT_MAX"

text \<open>
  The invariant of the trie with respect to the set \<open>D\<close> of the inserted words:
  \<open>trie_invariant_spec\<close> as section 3 of the specification states it, and
  \<open>trie_invariant\<close> with the root, the node of the empty path, always present.
\<close>

definition trie_invariant_spec :: "trie \<Rightarrow> string set \<Rightarrow> bool" where
  "trie_invariant_spec node D \<longleftrightarrow>
     (\<forall>S. (reachable node S \<longleftrightarrow> (\<exists>w\<in>D. prefix S w)) \<and> (terminal node S \<longleftrightarrow> S \<in> D))"

definition trie_invariant :: "trie \<Rightarrow> string set \<Rightarrow> bool" where
  "trie_invariant node D \<longleftrightarrow>
     (\<forall>S. (reachable node S \<longleftrightarrow> S = [] \<or> (\<exists>w\<in>D. prefix S w)) \<and> (terminal node S \<longleftrightarrow> S \<in> D))"

text \<open>
  \<open>pieces node str start end n\<close>: the range is the concatenation of \<open>n\<close> non-empty
  strings, each of them spelling a path from \<open>node\<close> to a leaf.
\<close>

definition pieces :: "trie \<Rightarrow> string \<Rightarrow> int \<Rightarrow> int \<Rightarrow> nat \<Rightarrow> bool" where
  "pieces node str start end n \<longleftrightarrow>
     (\<exists>ps. length ps = n \<and> list_all (\<lambda>p. p \<noteq> [] \<and> terminal node p) ps \<and>
           concat ps = substring str start end)"

definition segmentable :: "trie \<Rightarrow> string \<Rightarrow> int \<Rightarrow> int \<Rightarrow> bool" where
  "segmentable node str start end \<longleftrightarrow> (\<exists>n. 1 \<le> n \<and> pieces node str start end n)"

text \<open>
  \<open>split_at\<close>: a first piece ending at \<open>j\<close> that is a word of the trie, followed by
  nothing or by a segmentable rest. \<open>sound_result\<close>: what the two components of a result
  of \<open>concatWord\<close> say about each other and about the range.
\<close>

definition split_at :: "trie \<Rightarrow> string \<Rightarrow> int \<Rightarrow> int \<Rightarrow> int \<Rightarrow> bool" where
  "split_at node str start end j \<longleftrightarrow>
     terminal node (substring str start j) \<and> (j = end \<or> segmentable node str (j + 1) end)"

definition sound_result :: "trie \<Rightarrow> string \<Rightarrow> int \<Rightarrow> int \<Rightarrow> int \<Rightarrow> bool \<Rightarrow> bool" where
  "sound_result node str start end cnt res \<longleftrightarrow>
     (res \<longrightarrow> 1 \<le> cnt \<and> pieces node str start end (nat cnt)) \<and> (\<not> res \<longrightarrow> cnt = 0)"

text \<open>
  \<open>findBreak\<close> as section 4.1 of the specification words it. The walk over
  \<open>word[start..=end]\<close> stops at the first position where the edge is missing or where
  the node reached is terminal at or after \<open>minBreak\<close>; a missing edge is a failure
  (\<open>None\<close>), a terminal node a success with that position. A walk that consumes the
  whole range succeeds, with \<open>breakPos = end\<close>, exactly when the final node is terminal.
\<close>

definition stops :: "trie \<Rightarrow> string \<Rightarrow> int \<Rightarrow> int \<Rightarrow> int \<Rightarrow> bool" where
  "stops node word start minBreak i \<longleftrightarrow>
     \<not> reachable node (substring word start i) \<or>
     (minBreak \<le> i \<and> terminal node (substring word start i))"

definition findBreak_spec :: "trie \<Rightarrow> string \<Rightarrow> int \<Rightarrow> int \<Rightarrow> int \<Rightarrow> int option" where
  "findBreak_spec node word start end minBreak =
     (case find (stops node word start minBreak) [start..end] of
        Some i \<Rightarrow> if reachable node (substring word start i) then Some i else None
      | None \<Rightarrow> if terminal node (substring word start end) then Some end else None)"

lemma findBreak_spec_ge:
  "findBreak_spec node word start end i = Some breakPos \<Longrightarrow> i \<le> end \<Longrightarrow> i \<le> breakPos"
  by (auto simp: findBreak_spec_def stops_def find_Some_iff split: option.splits if_splits)

text \<open>
  \<open>canSegment\<close> as section 4.2 of the specification words it: the candidate split
  point \<open>i\<close> runs from \<open>start\<close> to \<open>end\<close>, and steps b and c use that \<open>i\<close>.
\<close>

function canSegment_spec_from :: "trie \<Rightarrow> string \<Rightarrow> int \<Rightarrow> int \<Rightarrow> int \<Rightarrow> bool \<times> int"
  and canSegment_spec :: "trie \<Rightarrow> string \<Rightarrow> int \<Rightarrow> int \<Rightarrow> bool \<times> int" where
  "canSegment_spec_from node word start end i =
     (if i \<le> end then
        (let firstPieceFound = (findBreak_spec node word start end i \<noteq> None) in
         if i = end then (firstPieceFound, if firstPieceFound then 1 else 0)
         else
           (case canSegment_spec node word (i + 1) end of
              (secondPieceFound, restCount) \<Rightarrow>
                if firstPieceFound \<and> secondPieceFound then (True, 1 + restCount)
                else canSegment_spec_from node word start end (i + 1)))
      else (False, 0))"
| "canSegment_spec node word start end =
     (if start > end then (False, 0)
      else canSegment_spec_from node word start end start)"
  by pat_completeness auto
termination
  by (relation "measure (\<lambda>x. case x of
          Inl (node, word, start, end, i) \<Rightarrow> 2 * nat (end + 1 - i)
        | Inr (node, word, start, end) \<Rightarrow> 2 * nat (end + 1 - start) + 1)") auto

declare canSegment_spec_from.simps [simp del] canSegment_spec.simps [simp del]

text \<open>
  The same procedure with one change: when the first piece is found, the split point
  \<open>i\<close> becomes the \<open>breakPos\<close> that \<open>findBreak\<close> reports, before the test \<open>i == end\<close>, the
  recursive call on \<open>i + 1\<close> and the step to the next candidate.
\<close>

function canSegment_amended_from :: "trie \<Rightarrow> string \<Rightarrow> int \<Rightarrow> int \<Rightarrow> int \<Rightarrow> bool \<times> int"
  and canSegment_amended :: "trie \<Rightarrow> string \<Rightarrow> int \<Rightarrow> int \<Rightarrow> bool \<times> int" where
  "canSegment_amended_from node word start end i0 =
     (if i0 \<le> end then
        (let r = findBreak_spec node word start end i0;
             firstPieceFound = (r \<noteq> None);
             i = (case r of Some breakPos \<Rightarrow> breakPos | None \<Rightarrow> i0) in
         if i = end then (firstPieceFound, if firstPieceFound then 1 else 0)
         else
           (case canSegment_amended node word (i + 1) end of
              (secondPieceFound, restCount) \<Rightarrow>
                if firstPieceFound \<and> secondPieceFound then (True, 1 + restCount)
                else canSegment_amended_from node word start end (i + 1)))
      else (False, 0))"
| "canSegment_amended node word start end =
     (if start > end then (False, 0)
      else canSegment_amended_from node word start end start)"
  by pat_completeness auto
termination
  by (relation "measure (\<lambda>x. case x of
          Inl (node, word, start, end, i) \<Rightarrow> 2 * nat (end + 1 - i)
        | Inr (node, word, start, end) \<Rightarrow> 2 * nat (end + 1 - start) + 1)")
     (auto split: option.splits dest: findBreak_spec_ge)

declare canSegment_amended_from.simps [simp del] canSegment_amended.simps [simp del]

section \<open>Substrings and walks\<close>


lemma substring_empty: "end < start \<Longrightarrow> substring str start end = []"
  by (simp add: substring_def)

lemma substring_Cons:
  assumes "0 \<le> i" "i \<le> j" "i < int (length str)"
  shows "substring str i j = str ! nat i # substring str (i + 1) j"
proof -
  have d: "drop (nat i) str = str ! nat i # drop (nat (i + 1)) str"
    using assms by (simp add: Cons_nth_drop_Suc nat_add_distrib)
  have n: "nat (j + 1 - i) = Suc (nat (j + 1 - (i + 1)))"
    using assms by simp
  show ?thesis
    unfolding substring_def d n by simp
qed

lemma length_substring:
  "0 \<le> start \<Longrightarrow> end < int (length str) \<Longrightarrow> length (substring str start end) = nat (end + 1 - start)"
  by (auto simp: substring_def)

lemma lowercase_nth:
  "lowercase str \<Longrightarrow> 0 \<le> i \<Longrightarrow> i < int (length str) \<Longrightarrow> in_alphabet (char_index (str ! nat i))"
  by (simp add: lowercase_def list_all_length)

lemma reachable_Nil: "reachable node [] = True"
  by (simp add: reachable_def)

lemma terminal_Nil: "terminal node [] = isLeaf node"
  by (simp add: terminal_def)

lemma reachable_Cons:
  "in_alphabet (char_index c) \<Longrightarrow>
   reachable node (c # s) = (case character node (char_index c) of None \<Rightarrow> False | Some child \<Rightarrow> reachable child s)"
  by (simp add: reachable_def split: option.splits)

lemma terminal_Cons:
  "in_alphabet (char_index c) \<Longrightarrow>
   terminal node (c # s) = (case character node (char_index c) of None \<Rightarrow> False | Some child \<Rightarrow> terminal child s)"
  by (simp add: terminal_def split: option.splits)

lemma terminal_reachable: "terminal node s \<Longrightarrow> reachable node s"
  by (simp add: terminal_def reachable_def split: option.splits)

lemma isLeafBreak_loop_find:
  assumes "lowercase str" "0 \<le> i" "end < int (length str)" "end < INT_MAX"
  shows "isLeafBreak_loop subnode str i end mid =
     (case find (stops subnode str i mid) [i..end] of
        Some j \<Rightarrow> if reachable subnode (substring str i j) then Some (True, j) else Some (False, mid)
      | None \<Rightarrow> Some (terminal subnode (substring str i end), end))"
  using assms
proof (induction subnode str i "end" mid rule: isLeafBreak_loop.induct)
  case (1 subnode str i "end" mid)
  show ?case
  proof (cases "i \<le> end")
    case False
    then show ?thesis
      by (subst isLeafBreak_loop.simps) (simp add: substring_empty terminal_Nil)
  next
    case True
    let ?c = "str ! nat i"
    have lc: "in_alphabet (char_index ?c)"
      using 1 True by (intro lowercase_nth) auto
    have up: "[i..end] = i # [i + 1..end]"
      using True by (simp add: upto_rec1)
    have sub: "substring str i j = ?c # substring str (i + 1) j" if "i \<le> j" for j
      using that 1 True by (intro substring_Cons) auto
    have sub_i: "substring str i i = [?c]"
      using sub [of i] by (simp add: substring_empty)
    have unf: "isLeafBreak_loop subnode str i end mid =
        (case character subnode (char_index ?c) of
              None \<Rightarrow> Some (False, mid)
            | Some child \<Rightarrow>
                if i \<ge> mid \<and> isLeaf child then Some (True, i)
                else isLeafBreak_loop child str (i + 1) end mid)"
      using 1 True lc by (subst isLeafBreak_loop.simps) (auto split: option.splits)
    show ?thesis
    proof (cases "character subnode (char_index ?c)")
      case None
      then show ?thesis
        unfolding unf up by (simp add: stops_def sub_i reachable_Cons lc)
    next
      case (Some child)
      show ?thesis
      proof (cases "mid \<le> i \<and> isLeaf child")
        case True
        then show ?thesis
          unfolding unf up using Some
          by (simp add: stops_def sub_i reachable_Cons terminal_Cons lc reachable_Nil terminal_Nil)
      next
        case False
        have ni: "\<not> stops subnode str i mid i"
          using False Some
          by (auto simp add: stops_def sub_i reachable_Cons terminal_Cons lc reachable_Nil terminal_Nil)
        have ih: "isLeafBreak_loop child str (i + 1) end mid =
          (case find (stops child str (i + 1) mid) [i + 1..end] of
             Some j \<Rightarrow> if reachable child (substring str (i + 1) j) then Some (True, j) else Some (False, mid)
           | None \<Rightarrow> Some (terminal child (substring str (i + 1) end), end))"
          using "1.IH" [of child] "1.prems" \<open>i \<le> end\<close> lc Some False
          by (auto simp: INT_MAX_def)
        have r: "reachable subnode (substring str i j) = reachable child (substring str (i + 1) j)"
          if "i \<le> j" for j
          using that Some by (simp add: sub reachable_Cons lc)
        have t: "terminal subnode (substring str i j) = terminal child (substring str (i + 1) j)"
          if "i \<le> j" for j
          using that Some by (simp add: sub terminal_Cons lc)
        have unf2: "isLeafBreak_loop subnode str i end mid = isLeafBreak_loop child str (i + 1) end mid"
          unfolding unf using Some False by auto
        have f: "find (stops subnode str i mid) [i + 1..end] = find (stops child str (i + 1) mid) [i + 1..end]"
          by (rule find_cong) (auto simp: stops_def r t)
        show ?thesis
        proof (cases "find (stops child str (i + 1) mid) [i + 1..end]")
          case None
          then show ?thesis
            unfolding unf2 up using ni f ih \<open>i \<le> end\<close> by (simp add: t)
        next
          case (Some j)
          then have "i + 1 \<le> j"
            by (auto simp: find_Some_iff dest: nth_mem)
          then show ?thesis
            unfolding unf2 up using Some ni f ih by (simp add: r)
        qed
      qed
    qed
  qed
qed

lemma find_upto_SomeD:
  "find P [s..e] = Some i \<Longrightarrow> s \<le> i \<and> i \<le> e \<and> P i \<and> (\<forall>k. s \<le> k \<and> k < i \<longrightarrow> \<not> P k)"
proof (induction s e rule: upto.induct)
  case (1 s e)
  show ?case
  proof (cases "s \<le> e")
    case False
    with 1 show ?thesis by simp
  next
    case True
    then have up: "[s..e] = s # [s + 1..e]" by (simp add: upto_rec1)
    show ?thesis
    proof (cases "P s")
      case True
      with 1 up \<open>s \<le> e\<close> show ?thesis by auto
    next
      case False
      with 1 up \<open>s \<le> e\<close> have "s + 1 \<le> i \<and> i \<le> e \<and> P i \<and> (\<forall>k. s + 1 \<le> k \<and> k < i \<longrightarrow> \<not> P k)"
        by simp
      with False show ?thesis
        by (metis add.commute add1_zle_eq order_le_less zle_add1_eq_le zless_add1_eq)
    qed
  qed
qed

lemma find_upto_None: "(\<forall>k. s \<le> k \<and> k \<le> e \<longrightarrow> \<not> P k) \<Longrightarrow> find P [s..e] = None"
  by (simp add: find_None_iff)

lemma find_upto_NoneD: "find P [s..e] = None \<Longrightarrow> s \<le> k \<Longrightarrow> k \<le> e \<Longrightarrow> \<not> P k"
  by (simp add: find_None_iff)

lemma find_upto_first:
  assumes "s \<le> i" "i \<le> e" "P i"
  shows "\<exists>j. find P [s..e] = Some j \<and> j \<le> i"
proof (cases "find P [s..e]")
  case None
  with assms show ?thesis by (auto dest: find_upto_NoneD)
next
  case (Some j)
  from find_upto_SomeD [OF this] assms have "j \<le> i"
    by (meson not_le)
  with Some show ?thesis by simp
qed

lemma find_upto_Some:
  assumes "s \<le> i" "i \<le> e" "P i" "\<forall>k. s \<le> k \<and> k < i \<longrightarrow> \<not> P k"
  shows "find P [s..e] = Some i"
proof -
  from find_upto_first [of s i e P] assms(1-3) obtain j where j: "find P [s..e] = Some j" "j \<le> i"
    by blast
  from find_upto_SomeD [OF j(1)] assms(4) j(2) have "j = i"
    by (metis order_le_less)
  with j show ?thesis by simp
qed

lemma walk_append:
  "walk node (a @ b) = (case walk node a of None \<Rightarrow> None | Some u \<Rightarrow> walk u b)"
  by (induction a arbitrary: node) (auto split: option.splits)

lemma reachable_appendD: "reachable node (a @ b) \<Longrightarrow> reachable node a"
  by (simp add: reachable_def walk_append split: option.splits)

lemma substring_take:
  "k \<le> i \<Longrightarrow> substring str start k = take (nat (k + 1 - start)) (substring str start i)"
  by (simp add: substring_def min_def)

lemma reachable_earlier:
  assumes "reachable node (substring str start i)" "k \<le> i"
  shows "reachable node (substring str start k)"
proof -
  have "substring str start i = substring str start k @ drop (nat (k + 1 - start)) (substring str start i)"
    using substring_take [OF assms(2), of str start] by simp
  with assms(1) show ?thesis
    by (metis reachable_appendD)
qed

lemma isLeafBreak_find:
  assumes "lowercase str" "0 \<le> start" "end < int (length str)" "end < INT_MAX"
  shows "isLeafBreak node str start end mid =
     (case find (stops node str start mid) [start..end] of
        Some j \<Rightarrow> if reachable node (substring str start j) then Some (True, j) else Some (False, mid)
      | None \<Rightarrow> Some (terminal node (substring str start end), end))"
  unfolding isLeafBreak_def using assms by (rule isLeafBreak_loop_find)

lemma isLeafBreak_eq_spec:
  assumes "lowercase str" "0 \<le> start" "end < int (length str)" "end < INT_MAX"
  shows "\<exists>b mid'. isLeafBreak node str start end mid = Some (b, mid') \<and>
           (b \<longleftrightarrow> findBreak_spec node str start end mid \<noteq> None) \<and>
           (b \<longrightarrow> findBreak_spec node str start end mid = Some mid') \<and>
           (\<not> b \<longrightarrow> mid' = mid \<or> mid' = end)"
  unfolding isLeafBreak_find [OF assms] findBreak_spec_def
  by (auto split: option.splits)


lemma valid_rangeD:
  "valid_range str start end \<Longrightarrow> 0 \<le> start \<and> start \<le> end \<and> end < int (length str) \<and> end < INT_MAX"
  by (simp add: valid_range_def)

section \<open>The break search\<close>

text \<open>
  Claim C2. On a lowercase word and a valid range, \<open>isLeafBreak\<close> behaves as follows.
  \<^item> If position \<open>i\<close> of the range is at or after \<open>minBreak\<close>, the node walked to at \<open>i\<close>
    is terminal, and no earlier position at or after \<open>minBreak\<close> has a terminal node,
    the result is success with break position \<open>i\<close>: the first such position.
  \<^item> If the edge needed at some position \<open>i\<close> is missing and the walk gets there (no
    earlier position at or after \<open>minBreak\<close> has a terminal node), the result is
    failure, whatever \<open>minBreak\<close> is; \<open>mid\<close> keeps its value.
  \<^item> If the whole range can be walked and no position before \<open>end\<close> gives a hit, the
    result is success exactly when the node reached at \<open>end\<close> is terminal, and the
    position reported is \<open>end\<close>.
\<close>

theorem isLeafBreak_first_break:
  assumes "lowercase str" "valid_range str start end"
  shows "(\<forall>i. start \<le> i \<and> i \<le> end \<and> minBreak \<le> i \<and> terminal node (substring str start i) \<and>
              (\<forall>k. start \<le> k \<and> k < i \<and> minBreak \<le> k \<longrightarrow> \<not> terminal node (substring str start k))
            \<longrightarrow> isLeafBreak node str start end minBreak = Some (True, i)) \<and>
         (\<forall>i. start \<le> i \<and> i \<le> end \<and> \<not> reachable node (substring str start i) \<and>
              (\<forall>k. start \<le> k \<and> k < i \<and> minBreak \<le> k \<longrightarrow> \<not> terminal node (substring str start k))
            \<longrightarrow> isLeafBreak node str start end minBreak = Some (False, minBreak)) \<and>
         (reachable node (substring str start end) \<and>
              (\<forall>k. start \<le> k \<and> k < end \<and> minBreak \<le> k \<longrightarrow> \<not> terminal node (substring str start k))
            \<longrightarrow> isLeafBreak node str start end minBreak =
                  Some (terminal node (substring str start end), end))"
proof -
  let ?P = "stops node str start minBreak"
  let ?t = "\<lambda>i. terminal node (substring str start i)"
  let ?r = "\<lambda>i. reachable node (substring str start i)"
  note eq = isLeafBreak_find [of str start "end" node minBreak]
  have v: "0 \<le> start" "start \<le> end" "end < int (length str)" "end < INT_MAX"
    using valid_rangeD [OF assms(2)] by auto
  have hit: "isLeafBreak node str start end minBreak = Some (True, i)"
    if "start \<le> i" "i \<le> end" "minBreak \<le> i" "?t i"
      "\<forall>k. start \<le> k \<and> k < i \<and> minBreak \<le> k \<longrightarrow> \<not> ?t k" for i
  proof -
    have ri: "?r i" using that(4) by (rule terminal_reachable)
    have "\<forall>k. start \<le> k \<and> k < i \<longrightarrow> \<not> ?P k"
      using that(5) reachable_earlier [OF ri] by (auto simp: stops_def)
    moreover have "?P i" using that by (simp add: stops_def)
    ultimately have "find ?P [start..end] = Some i"
      using that(1,2) by (intro find_upto_Some) auto
    then show ?thesis using eq assms(1) v ri by simp
  qed
  have miss: "isLeafBreak node str start end minBreak = Some (False, minBreak)"
    if "start \<le> i" "i \<le> end" "\<not> ?r i"
      "\<forall>k. start \<le> k \<and> k < i \<and> minBreak \<le> k \<longrightarrow> \<not> ?t k" for i
  proof -
    have "?P i" using that(3) by (simp add: stops_def)
    with that(1,2) obtain j where j: "find ?P [start..end] = Some j" "j \<le> i"
      using find_upto_first [of start i "end" ?P] by blast
    from find_upto_SomeD [OF j(1)] have "start \<le> j" "?P j" by auto
    have "\<not> ?r j"
    proof
      assume rj: "?r j"
      with \<open>?P j\<close> have "minBreak \<le> j" "?t j" by (auto simp: stops_def)
      with that(3,4) \<open>start \<le> j\<close> j(2) rj show False
        by (cases "j = i") auto
    qed
    then show ?thesis using eq assms(1) v j(1) by simp
  qed
  have full: "isLeafBreak node str start end minBreak = Some (?t end, end)"
    if "?r end" "\<forall>k. start \<le> k \<and> k < end \<and> minBreak \<le> k \<longrightarrow> \<not> ?t k"
  proof (cases "minBreak \<le> end \<and> ?t end")
    case True
    with hit [of "end"] v that(2) show ?thesis by simp
  next
    case False
    have "\<forall>k. start \<le> k \<and> k \<le> end \<longrightarrow> \<not> ?P k"
      using that(2) False reachable_earlier [OF that(1)]
      by (auto simp: stops_def) (metis order_le_less)
    then have "find ?P [start..end] = None"
      by (rule find_upto_None)
    then show ?thesis using eq assms(1) v by simp
  qed
  from hit miss full show ?thesis by blast
qed


lemma isLeafBreak_result:
  assumes "lowercase str" "valid_range str start end"
  obtains b mid' where
    "isLeafBreak node str start end mid = Some (b, mid')"
    "b \<Longrightarrow> start \<le> mid' \<and> mid' \<le> end \<and> terminal node (substring str start mid') \<and>
       ((mid \<le> mid' \<and> (\<forall>k. start \<le> k \<and> k < mid' \<and> mid \<le> k \<longrightarrow> \<not> terminal node (substring str start k))) \<or>
        (mid' = end \<and> end < mid))"
    "\<not> b \<Longrightarrow> (\<forall>k. start \<le> k \<and> k \<le> end \<and> mid \<le> k \<longrightarrow> \<not> terminal node (substring str start k)) \<and>
       ((mid' = mid \<and> \<not> reachable node (substring str start end)) \<or>
        (mid' = end \<and> reachable node (substring str start end) \<and>
         \<not> terminal node (substring str start end)))"
proof -
  let ?P = "stops node str start mid"
  let ?t = "\<lambda>i. terminal node (substring str start i)"
  let ?r = "\<lambda>i. reachable node (substring str start i)"
  have v: "0 \<le> start" "start \<le> end" "end < int (length str)" "end < INT_MAX"
    using valid_rangeD [OF assms(2)] by auto
  note eq = isLeafBreak_find [OF assms(1) v(1,3,4), of node mid]
  show thesis
  proof (cases "find ?P [start..end]")
    case None
    then have np: "\<not> ?P k" if "start \<le> k" "k \<le> end" for k
      using that by (auto dest: find_upto_NoneD)
    from np [of "end"] v have e: "?r end" "\<not> (mid \<le> end \<and> ?t end)"
      by (auto simp: stops_def)
    have r: "isLeafBreak node str start end mid = Some (?t end, end)"
      using eq None by simp
    show ?thesis
    proof (rule that [OF r])
      assume "?t end"
      with e v show "start \<le> end \<and> end \<le> end \<and> ?t end \<and>
         ((mid \<le> end \<and> (\<forall>k. start \<le> k \<and> k < end \<and> mid \<le> k \<longrightarrow> \<not> ?t k)) \<or> (end = end \<and> end < mid))"
        by auto
    next
      assume "\<not> ?t end"
      with e np show "(\<forall>k. start \<le> k \<and> k \<le> end \<and> mid \<le> k \<longrightarrow> \<not> ?t k) \<and>
         ((end = mid \<and> \<not> ?r end) \<or> (end = end \<and> ?r end \<and> \<not> ?t end))"
        by (auto simp: stops_def)
    qed
  next
    case (Some j)
    from find_upto_SomeD [OF Some] have j: "start \<le> j" "j \<le> end" "?P j"
      and before: "\<And>k. start \<le> k \<Longrightarrow> k < j \<Longrightarrow> \<not> ?P k"
      by auto
    show ?thesis
    proof (cases "?r j")
      case True
      have r: "isLeafBreak node str start end mid = Some (True, j)"
        using eq Some True by simp
      from True j(3) have "mid \<le> j" "?t j" by (auto simp: stops_def)
      moreover have "\<forall>k. start \<le> k \<and> k < j \<and> mid \<le> k \<longrightarrow> \<not> ?t k"
        using before by (auto simp: stops_def)
      ultimately show ?thesis
        using j by (intro that [OF r]) auto
    next
      case False
      have r: "isLeafBreak node str start end mid = Some (False, mid)"
        using eq Some False by simp
      have nr: "\<not> ?r k" if "j \<le> k" for k
        using False reachable_earlier [OF _ that] by blast
      have "\<not> ?t k" if "start \<le> k" "mid \<le> k" for k
      proof (cases "k < j")
        case True
        with before [OF that(1)] that(2) show ?thesis by (auto simp: stops_def)
      next
        case False
        with nr [of k] show ?thesis by (auto dest: terminal_reachable)
      qed
      with nr [of "end"] j(2) show ?thesis
        by (intro that [OF r]) auto
    qed
  qed
qed

text \<open>
  Claim C10. The final value of the out-parameter \<open>mid\<close> is determined by the outcome.
  On success it is the break position, a position of the range whose node is terminal,
  and it is at least the initial \<open>mid\<close> or equal to \<open>end\<close>. On a failure with an edge
  missing on the path of the range it is the caller's value, unchanged. On a failure
  after the whole range was walked it is \<open>end\<close>, and the final node is not terminal.
  In \<open>concatWord\<close> the loop variable is that parameter: one round of its loop from \<open>mid\<close>
  tests the final value against \<open>end\<close>, recurses on the final value plus one and goes
  on from there.
\<close>

theorem isLeafBreak_final_mid:
  assumes "lowercase str" "valid_range str start end"
  shows "\<exists>b mid'. isLeafBreak node str start end mid = Some (b, mid') \<and>
     (b \<longrightarrow> start \<le> mid' \<and> mid' \<le> end \<and> terminal node (substring str start mid') \<and>
            (mid \<le> mid' \<or> mid' = end)) \<and>
     (\<not> b \<and> \<not> reachable node (substring str start end) \<longrightarrow> mid' = mid) \<and>
     (\<not> b \<and> reachable node (substring str start end) \<longrightarrow>
            mid' = end \<and> \<not> terminal node (substring str start end)) \<and>
     (mid \<le> end \<longrightarrow>
        concatWord_loop node str start end mid =
          (if mid' = end then Some (if b then 1 else 0, b)
           else
             (case concatWord node str (mid' + 1) end of
                None \<Rightarrow> None
              | Some (cntWords, bPartTwo) \<Rightarrow>
                  if b \<and> bPartTwo then Some (1 + cntWords, True)
                  else concatWord_loop node str start end (mid' + 1))))"
proof -
  from assms obtain b mid' where r: "isLeafBreak node str start end mid = Some (b, mid')"
    and t: "b \<Longrightarrow> start \<le> mid' \<and> mid' \<le> end \<and> terminal node (substring str start mid') \<and>
       ((mid \<le> mid' \<and> (\<forall>k. start \<le> k \<and> k < mid' \<and> mid \<le> k \<longrightarrow> \<not> terminal node (substring str start k))) \<or>
        (mid' = end \<and> end < mid))"
    and f: "\<not> b \<Longrightarrow> (\<forall>k. start \<le> k \<and> k \<le> end \<and> mid \<le> k \<longrightarrow> \<not> terminal node (substring str start k)) \<and>
       ((mid' = mid \<and> \<not> reachable node (substring str start end)) \<or>
        (mid' = end \<and> reachable node (substring str start end) \<and>
         \<not> terminal node (substring str start end)))"
    by (rule isLeafBreak_result [of str start "end" node mid]) blast
  have "concatWord_loop node str start end mid =
          (if mid' = end then Some (if b then 1 else 0, b)
           else
             (case concatWord node str (mid' + 1) end of
                None \<Rightarrow> None
              | Some (cntWords, bPartTwo) \<Rightarrow>
                  if b \<and> bPartTwo then Some (1 + cntWords, True)
                  else concatWord_loop node str start end (mid' + 1)))" if "mid \<le> end"
    using that r by (subst concatWord_loop.simps) simp
  with r t f show ?thesis by (cases b) auto
qed


theorem isLeafBreak_first_break_witness:
  "lowercase ''catsdog'' \<and> valid_range ''catsdog'' 0 6 \<and>
   terminal (the (insertWords create [''cat'', ''cats'', ''dog''])) (substring ''catsdog'' 0 3) \<and>
   isLeafBreak (the (insertWords create [''cat'', ''cats'', ''dog''])) ''catsdog'' 0 6 3 = Some (True, 3)"
proof -
  define t where "t = the (insertWords create [''cat'', ''cats'', ''dog''])"
  have l: "lowercase ''catsdog''" by code_simp
  have v: "valid_range ''catsdog'' 0 6" by code_simp
  have h: "terminal t (substring ''catsdog'' 0 3)" unfolding t_def by code_simp
  from isLeafBreak_first_break [OF l v, where minBreak = 3 and node = t, THEN conjunct1, THEN spec, of 3] h
  have "isLeafBreak t ''catsdog'' 0 6 3 = Some (True, 3)" by auto
  with l v h show ?thesis unfolding t_def by blast
qed

theorem isLeafBreak_final_mid_witness:
  "lowercase ''catsdog'' \<and> valid_range ''catsdog'' 0 6 \<and>
   isLeafBreak (the (insertWords create [''cat'', ''cats'', ''dog''])) ''catsdog'' 0 6 0 = Some (True, 2) \<and>
   terminal (the (insertWords create [''cat'', ''cats'', ''dog''])) (substring ''catsdog'' 0 2)"
proof -
  define t where "t = the (insertWords create [''cat'', ''cats'', ''dog''])"
  have l: "lowercase ''catsdog''" by code_simp
  have v: "valid_range ''catsdog'' 0 6" by code_simp
  have r: "isLeafBreak t ''catsdog'' 0 6 0 = Some (True, 2)" unfolding t_def by code_simp
  from isLeafBreak_final_mid [OF l v, of t 0] r
  have "terminal t (substring ''catsdog'' 0 2)"
    by auto
  with l v r show ?thesis unfolding t_def by blast
qed

section \<open>Insertion\<close>

lemma char_index_eq_iff: "char_index c = char_index d \<longleftrightarrow> c = d"
  by (simp add: char_index_def)

lemma reachable_Cons_iff:
  "reachable node (c # s) \<longleftrightarrow>
     in_alphabet (char_index c) \<and>
     (case character node (char_index c) of None \<Rightarrow> False | Some child \<Rightarrow> reachable child s)"
  by (simp add: reachable_def split: option.splits)

lemma terminal_Cons_iff:
  "terminal node (c # s) \<longleftrightarrow>
     in_alphabet (char_index c) \<and>
     (case character node (char_index c) of None \<Rightarrow> False | Some child \<Rightarrow> terminal child s)"
  by (simp add: terminal_def split: option.splits)

lemma reachable_create: "reachable create s \<longleftrightarrow> s = []"
  by (cases s) (simp_all add: reachable_Nil reachable_Cons_iff create_def)

lemma terminal_create: "\<not> terminal create s"
  by (cases s) (simp_all add: terminal_Nil terminal_Cons_iff create_def)

lemma lowercase_Cons: "lowercase (c # w) \<longleftrightarrow> in_alphabet (char_index c) \<and> lowercase w"
  by (simp add: lowercase_def)

lemma in_alphabet_not_NUL: "in_alphabet (char_index c) \<Longrightarrow> c \<noteq> CHR 0x00"
  by (auto simp: in_alphabet_def char_index_def)

lemma insertWord_paths:
  "lowercase w \<Longrightarrow>
     \<exists>node'. insertWord node w = Some node' \<and>
       (\<forall>s. reachable node' s \<longleftrightarrow> reachable node s \<or> prefix s w) \<and>
       (\<forall>s. terminal node' s \<longleftrightarrow> terminal node s \<or> s = w)"
proof (induction w arbitrary: node)
  case Nil
  have "reachable (Trie True (character node)) s \<longleftrightarrow> reachable node s \<or> s = []" for s
    by (cases s) (simp_all add: reachable_Nil reachable_Cons_iff)
  moreover have "terminal (Trie True (character node)) s \<longleftrightarrow> terminal node s \<or> s = []" for s
    by (cases s) (simp_all add: terminal_Nil terminal_Cons_iff)
  ultimately show ?case by simp
next
  case (Cons c w)
  let ?ch = "char_index c"
  let ?sub = "case character node ?ch of None \<Rightarrow> create | Some edge \<Rightarrow> edge"
  from Cons.prems have c: "in_alphabet ?ch" and w: "lowercase w"
    by (simp_all add: lowercase_Cons)
  from Cons.IH [OF w, of ?sub] obtain edge where e: "insertWord ?sub w = Some edge"
    and er: "\<And>s. reachable edge s \<longleftrightarrow> reachable ?sub s \<or> prefix s w"
    and et: "\<And>s. terminal edge s \<longleftrightarrow> terminal ?sub s \<or> s = w"
    by blast
  let ?node' = "Trie (isLeaf node) ((character node)(?ch := Some edge))"
  have ins: "insertWord node (c # w) = Some ?node'"
    using c e in_alphabet_not_NUL [OF c] by simp
  have r: "reachable ?node' s \<longleftrightarrow> reachable node s \<or> prefix s (c # w)" for s
  proof (cases s)
    case Nil
    then show ?thesis by (simp add: reachable_Nil)
  next
    case (Cons d ds)
    show ?thesis
    proof (cases "d = c")
      case True
      with Cons c er [of ds] show ?thesis
        by (cases "character node ?ch") (auto simp: reachable_Cons_iff reachable_create)
    next
      case False
      with Cons show ?thesis
        by (simp add: reachable_Cons_iff char_index_eq_iff)
    qed
  qed
  have t: "terminal ?node' s \<longleftrightarrow> terminal node s \<or> s = c # w" for s
  proof (cases s)
    case Nil
    then show ?thesis by (simp add: terminal_Nil)
  next
    case (Cons d ds)
    show ?thesis
    proof (cases "d = c")
      case True
      with Cons c et [of ds] show ?thesis
        by (cases "character node ?ch") (auto simp: terminal_Cons_iff terminal_create)
    next
      case False
      with Cons show ?thesis
        by (simp add: terminal_Cons_iff char_index_eq_iff)
    qed
  qed
  from ins r t show ?case by blast
qed

lemma insertWords_paths:
  "list_all lowercase ws \<Longrightarrow>
     \<exists>node'. insertWords node ws = Some node' \<and>
       (\<forall>s. reachable node' s \<longleftrightarrow> reachable node s \<or> (\<exists>w\<in>set ws. prefix s w)) \<and>
       (\<forall>s. terminal node' s \<longleftrightarrow> terminal node s \<or> s \<in> set ws)"
proof (induction ws arbitrary: node)
  case Nil
  then show ?case by simp
next
  case (Cons w ws)
  then have w: "lowercase w" and ws: "list_all lowercase ws" by simp_all
  from insertWord_paths [OF w, of node] obtain n1 where n1: "insertWord node w = Some n1"
    "\<And>s. reachable n1 s \<longleftrightarrow> reachable node s \<or> prefix s w"
    "\<And>s. terminal n1 s \<longleftrightarrow> terminal node s \<or> s = w"
    by blast
  from Cons.IH [OF ws, of n1] obtain n2 where n2: "insertWords n1 ws = Some n2"
    "\<And>s. reachable n2 s \<longleftrightarrow> reachable n1 s \<or> (\<exists>w\<in>set ws. prefix s w)"
    "\<And>s. terminal n2 s \<longleftrightarrow> terminal n1 s \<or> s \<in> set ws"
    by blast
  have "insertWords node (w # ws) = Some n2"
    using n1(1) n2(1) by simp
  moreover have "reachable n2 s \<longleftrightarrow> reachable node s \<or> (\<exists>v\<in>set (w # ws). prefix s v)" for s
    using n1(2) n2(2) by auto
  moreover have "terminal n2 s \<longleftrightarrow> terminal node s \<or> s \<in> set (w # ws)" for s
    using n1(3) n2(3) by auto
  ultimately show ?case by blast
qed

text \<open>
  Claim C4 says that the node at the end of the path spelling \<open>S\<close> exists iff \<open>S\<close> is a
  prefix of an inserted word, and that \<open>create\<close> establishes this. The root is the node
  of the empty path and exists from \<open>create\<close> on, when no word has been inserted yet.
\<close>

theorem trie_invariant_spec_fails_at_create:
  "reachable create [] \<and> \<not> trie_invariant_spec create {}"
  by (auto simp: trie_invariant_spec_def reachable_create)

text \<open>
  Claim C4, amended. The node at the end of the path spelling \<open>S\<close> exists iff \<open>S\<close> is
  empty or a prefix of an inserted word, and it is a leaf iff \<open>S\<close> is an inserted word.
  \<open>create\<close> establishes this for the empty set of words, every \<open>insertWord\<close> of a
  lowercase word returns and preserves it, and so it holds after any sequence of
  insertions into the empty trie.
\<close>

theorem trie_invariant_holds:
  "trie_invariant create {} \<and>
   (\<forall>node D w. trie_invariant node D \<and> lowercase w \<longrightarrow>
      (\<exists>node'. insertWord node w = Some node' \<and> trie_invariant node' (insert w D))) \<and>
   (\<forall>ws. list_all lowercase ws \<longrightarrow>
      (\<exists>node. insertWords create ws = Some node \<and> trie_invariant node (set ws)))"
proof (intro conjI allI impI)
  show "trie_invariant create {}"
    by (simp add: trie_invariant_def reachable_create terminal_create)
next
  fix node D w
  assume a: "trie_invariant node D \<and> lowercase w"
  then obtain node' where n: "insertWord node w = Some node'"
    "\<And>s. reachable node' s \<longleftrightarrow> reachable node s \<or> prefix s w"
    "\<And>s. terminal node' s \<longleftrightarrow> terminal node s \<or> s = w"
    using insertWord_paths [of w node] by blast
  from a have "trie_invariant node' (insert w D)"
    unfolding trie_invariant_def n(2,3) by auto
  with n(1) show "\<exists>node'. insertWord node w = Some node' \<and> trie_invariant node' (insert w D)"
    by blast
next
  fix ws
  assume "list_all lowercase ws"
  then obtain node where n: "insertWords create ws = Some node"
    "\<And>s. reachable node s \<longleftrightarrow> reachable create s \<or> (\<exists>w\<in>set ws. prefix s w)"
    "\<And>s. terminal node s \<longleftrightarrow> terminal create s \<or> s \<in> set ws"
    using insertWords_paths [of ws create] by blast
  have "trie_invariant node (set ws)"
    unfolding trie_invariant_def n(2,3) by (simp add: reachable_create terminal_create)
  with n(1) show "\<exists>node. insertWords create ws = Some node \<and> trie_invariant node (set ws)"
    by blast
qed

theorem trie_invariant_holds_witness:
  "list_all lowercase [''cat'', ''cats''] \<and>
   (\<exists>node. insertWords create [''cat'', ''cats''] = Some node \<and>
      trie_invariant node (set [''cat'', ''cats'']))"
proof -
  have l: "list_all lowercase [''cat'', ''cats'']" by code_simp
  from trie_invariant_holds l show ?thesis by blast
qed

section \<open>Segmentation\<close>

lemma substring_append:
  assumes "0 \<le> start" "start \<le> j + 1" "j \<le> end"
  shows "substring str start j @ substring str (j + 1) end = substring str start end"
proof -
  have d: "drop (nat (j + 1)) str = drop (nat (j + 1 - start)) (drop (nat start) str)"
    using assms by (simp add: nat_diff_distrib nat_add_distrib)
  have n: "nat (end + 1 - start) = nat (j + 1 - start) + nat (end + 1 - (j + 1))"
    using assms by simp
  show ?thesis
    unfolding substring_def d n by (simp add: take_add)
qed

lemma pieces_single:
  assumes "0 \<le> start" "start \<le> end" "end < int (length str)"
    "terminal node (substring str start end)"
  shows "pieces node str start end 1"
proof -
  have "substring str start end \<noteq> []"
    using length_substring [of start "end" str] assms by auto
  with assms(4) show ?thesis
    unfolding pieces_def by (intro exI [of _ "[substring str start end]"]) simp
qed

lemma pieces_step:
  assumes "0 \<le> start" "start \<le> j" "j < end" "end < int (length str)"
    "terminal node (substring str start j)" "pieces node str (j + 1) end n"
  shows "pieces node str start end (Suc n)"
proof -
  from assms(6) obtain ps where ps: "length ps = n"
    "list_all (\<lambda>p. p \<noteq> [] \<and> terminal node p) ps" "concat ps = substring str (j + 1) end"
    unfolding pieces_def by blast
  have "substring str start j \<noteq> []"
    using length_substring [of start j str] assms by auto
  moreover have "concat (substring str start j # ps) = substring str start end"
    using ps(3) substring_append [of start j "end" str] assms by simp
  ultimately show ?thesis
    unfolding pieces_def using ps(1,2) assms(5)
    by (intro exI [of _ "substring str start j # ps"]) simp
qed

lemma not_segmentable_empty:
  assumes "end < start"
  shows "\<not> segmentable node str start end"
proof
  assume "segmentable node str start end"
  then obtain ps where ps: "1 \<le> length ps"
    "list_all (\<lambda>p. p \<noteq> [] \<and> terminal node p) ps" "concat ps = []"
    unfolding segmentable_def pieces_def using assms by (auto simp: substring_empty)
  then show False by (cases ps) auto
qed

lemma segmentable_split:
  assumes "0 \<le> start" "start \<le> end" "end < int (length str)" "segmentable node str start end"
  shows "\<exists>j. start \<le> j \<and> j \<le> end \<and> terminal node (substring str start j) \<and>
             (j = end \<or> segmentable node str (j + 1) end)"
proof -
  from assms(4) obtain ps where ps: "1 \<le> length ps"
    "list_all (\<lambda>p. p \<noteq> [] \<and> terminal node p) ps" "concat ps = substring str start end"
    unfolding segmentable_def pieces_def by blast
  then obtain p ps' where c: "ps = p # ps'"
    by (cases ps) auto
  with ps have p: "p \<noteq> []" "terminal node p" and rest: "list_all (\<lambda>p. p \<noteq> [] \<and> terminal node p) ps'"
    and cat: "p @ concat ps' = substring str start end"
    by auto
  define j where "j = start + int (length p) - 1"
  have len: "length (substring str start end) = nat (end + 1 - start)"
    using assms by (intro length_substring) auto
  have "length p \<le> length (substring str start end)"
    using cat by (metis length_append le_add1)
  with len p(1) assms have j: "start \<le> j" "j \<le> end"
    by (auto simp: j_def)
  have "substring str start j = take (length p) (substring str start end)"
    using substring_take [OF j(2), of str start] by (simp add: j_def)
  also have "\<dots> = p"
    using cat by (metis append_eq_conv_conj)
  finally have sj: "substring str start j = p" .
  show ?thesis
  proof (cases "j = end")
    case True
    with j sj p show ?thesis by auto
  next
    case False
    with j have lt: "j < end" by simp
    have "substring str start j @ substring str (j + 1) end = substring str start end"
      using assms j by (intro substring_append) auto
    with cat sj have c': "concat ps' = substring str (j + 1) end"
      by (metis same_append_eq)
    have "length (substring str (j + 1) end) = nat (end + 1 - (j + 1))"
      using assms j by (intro length_substring) auto
    with lt c' have "ps' \<noteq> []" by auto
    then have "1 \<le> length ps'" by (cases ps') auto
    with rest c' have "segmentable node str (j + 1) end"
      unfolding segmentable_def pieces_def by blast
    with j sj p show ?thesis by auto
  qed
qed


lemma split_at_segmentable:
  assumes "0 \<le> start" "end < int (length str)" "start \<le> j" "j \<le> end" "split_at node str start end j"
  shows "segmentable node str start end"
proof (cases "j = end")
  case True
  with assms pieces_single [of start "end" str node] show ?thesis
    unfolding segmentable_def split_at_def by auto
next
  case False
  with assms obtain n where n: "1 \<le> n" "pieces node str (j + 1) end n"
    unfolding split_at_def segmentable_def by auto
  with assms False pieces_step [of start j "end" str node n] have "pieces node str start end (Suc n)"
    unfolding split_at_def by simp
  then show ?thesis unfolding segmentable_def by (intro exI [of _ "Suc n"]) simp
qed

lemma concatWord_mutual_correct:
  "lowercase str \<Longrightarrow> valid_range str start end \<Longrightarrow> start \<le> i \<Longrightarrow>
     \<exists>cnt res. concatWord_loop node str start end i = Some (cnt, res) \<and>
       (res \<longleftrightarrow> (\<exists>j. i \<le> j \<and> j \<le> end \<and> split_at node str start end j)) \<and>
       sound_result node str start end cnt res"
  "lowercase str \<Longrightarrow> 0 \<le> start \<Longrightarrow> end < int (length str) \<Longrightarrow> end < INT_MAX \<Longrightarrow>
     \<exists>cnt res. concatWord node str start end = Some (cnt, res) \<and>
       (res \<longleftrightarrow> segmentable node str start end) \<and>
       sound_result node str start end cnt res"
proof (induction node str start "end" i and node str start "end" rule: concatWord_loop_concatWord.induct)
  case (1 node str start "end" i)
  note low = \<open>lowercase str\<close> and vr = \<open>valid_range str start end\<close>
  have v: "0 \<le> start" "start \<le> end" "end < int (length str)" "end < INT_MAX"
    using valid_rangeD [OF vr] by auto
  let ?t = "\<lambda>k. terminal node (substring str start k)"
  show ?case
  proof (cases "i \<le> end")
    case False
    then have "concatWord_loop node str start end i = Some (0, False)"
      by (subst concatWord_loop.simps) simp
    with False show ?thesis by (simp add: sound_result_def)
  next
    case ile: True
    from low vr obtain b mid' where r: "isLeafBreak node str start end i = Some (b, mid')"
      and t: "b \<Longrightarrow> start \<le> mid' \<and> mid' \<le> end \<and> ?t mid' \<and>
         ((i \<le> mid' \<and> (\<forall>k. start \<le> k \<and> k < mid' \<and> i \<le> k \<longrightarrow> \<not> ?t k)) \<or> (mid' = end \<and> end < i))"
      and f: "\<not> b \<Longrightarrow> (\<forall>k. start \<le> k \<and> k \<le> end \<and> i \<le> k \<longrightarrow> \<not> ?t k) \<and>
         ((mid' = i \<and> \<not> reachable node (substring str start end)) \<or>
          (mid' = end \<and> reachable node (substring str start end) \<and> \<not> ?t end))"
      by (rule isLeafBreak_result [of str start "end" node i]) blast
    have unf: "concatWord_loop node str start end i =
        (if mid' = end then Some (if b then 1 else 0, b)
         else
           (case concatWord node str (mid' + 1) end of
              None \<Rightarrow> None
            | Some (cntWords, bPartTwo) \<Rightarrow>
                if b \<and> bPartTwo then Some (1 + cntWords, True)
                else concatWord_loop node str start end (mid' + 1)))"
      using ile r by (subst concatWord_loop.simps) simp
    have bounds: "i \<le> mid'" "mid' \<le> end"
      using t f ile by (cases b; auto)+
    have before: "\<not> ?t k" if "i \<le> k" "k < mid'" for k
      using t f that \<open>start \<le> i\<close> ile by (cases b) auto
    show ?thesis
    proof (cases "mid' = end")
      case True
      show ?thesis
      proof (cases b)
        case True
        with t \<open>mid' = end\<close> have "?t end" by simp
        then have "split_at node str start end end"
          by (simp add: split_at_def)
        moreover have "pieces node str start end 1"
          using v \<open>?t end\<close> by (intro pieces_single)
        ultimately show ?thesis
          using unf \<open>mid' = end\<close> True ile by (auto simp: sound_result_def)
      next
        case False
        with f \<open>start \<le> i\<close> have "\<not> split_at node str start end j" if "i \<le> j" "j \<le> end" for j
          using that by (auto simp: split_at_def)
        with unf \<open>mid' = end\<close> False show ?thesis
          by (auto simp: sound_result_def)
      qed
    next
      case ne: False
      with bounds have lt: "mid' < end" by simp
      from "1.IH"(1) [OF ile r refl ne low] v bounds \<open>start \<le> i\<close>
      obtain c2 r2 where q: "concatWord node str (mid' + 1) end = Some (c2, r2)"
        "r2 \<longleftrightarrow> segmentable node str (mid' + 1) end"
        "sound_result node str (mid' + 1) end c2 r2"
        by auto
      show ?thesis
      proof (cases "b \<and> r2")
        case True
        with t have tm: "?t mid'" by simp
        with True q(2) have sp: "split_at node str start end mid'"
          by (simp add: split_at_def)
        from True q(3) have c2: "1 \<le> c2" "pieces node str (mid' + 1) end (nat c2)"
          by (auto simp: sound_result_def)
        have "pieces node str start end (Suc (nat c2))"
          using v bounds \<open>start \<le> i\<close> lt tm c2(2) by (intro pieces_step [of start mid']) auto
        moreover have "nat (1 + c2) = Suc (nat c2)"
          using c2(1) by simp
        ultimately have "sound_result node str start end (1 + c2) True"
          using c2(1) by (simp add: sound_result_def)
        moreover have "concatWord_loop node str start end i = Some (1 + c2, True)"
          using unf ne q(1) True by simp
        moreover have "\<exists>j. i \<le> j \<and> j \<le> end \<and> split_at node str start end j"
          using sp bounds by blast
        ultimately show ?thesis
          by (intro exI [of _ "1 + c2"] exI [of _ True]) simp
      next
        case False
        have unf2: "concatWord_loop node str start end i = concatWord_loop node str start end (mid' + 1)"
          using unf ne q(1) False by auto
        from "1.IH"(2) [OF ile r refl ne q(1) refl False low vr] bounds \<open>start \<le> i\<close>
        obtain cnt res where p: "concatWord_loop node str start end (mid' + 1) = Some (cnt, res)"
          "res \<longleftrightarrow> (\<exists>j. mid' + 1 \<le> j \<and> j \<le> end \<and> split_at node str start end j)"
          "sound_result node str start end cnt res"
          by auto
        have nm: "\<not> split_at node str start end mid'"
        proof (cases b)
          case True
          with False q(2) ne show ?thesis by (simp add: split_at_def)
        next
          case False
          with f bounds \<open>start \<le> i\<close> show ?thesis by (auto simp: split_at_def)
        qed
        have "(\<exists>j. i \<le> j \<and> j \<le> end \<and> split_at node str start end j) \<longleftrightarrow>
              (\<exists>j. mid' + 1 \<le> j \<and> j \<le> end \<and> split_at node str start end j)"
        proof
          assume "\<exists>j. i \<le> j \<and> j \<le> end \<and> split_at node str start end j"
          then obtain j where j: "i \<le> j" "j \<le> end" "split_at node str start end j" by blast
          have "\<not> j < mid'" using before [OF j(1)] j(3) by (auto simp: split_at_def)
          moreover have "j \<noteq> mid'" using nm j(3) by auto
          ultimately have "mid' + 1 \<le> j" by simp
          with j show "\<exists>j. mid' + 1 \<le> j \<and> j \<le> end \<and> split_at node str start end j" by blast
        next
          assume "\<exists>j. mid' + 1 \<le> j \<and> j \<le> end \<and> split_at node str start end j"
          with bounds show "\<exists>j. i \<le> j \<and> j \<le> end \<and> split_at node str start end j"
            by (meson add1_zle_eq order_less_imp_le order_trans)
        qed
        with p unf2 show ?thesis by simp
      qed
    qed
  qed
next
  case (2 node str start "end")
  show ?case
  proof (cases "end < start")
    case True
    then have "concatWord node str start end = Some (0, False)"
      by (simp add: concatWord.simps)
    with True show ?thesis
      by (auto simp: not_segmentable_empty sound_result_def)
  next
    case False
    then have vr: "valid_range str start end"
      using 2 by (simp add: valid_range_def)
    have unf: "concatWord node str start end = concatWord_loop node str start end start"
      using False by (simp add: concatWord.simps)
    from "2.IH" [OF False \<open>lowercase str\<close> vr]
    obtain cnt res where p: "concatWord_loop node str start end start = Some (cnt, res)"
      "res \<longleftrightarrow> (\<exists>j. start \<le> j \<and> j \<le> end \<and> split_at node str start end j)"
      "sound_result node str start end cnt res"
      by auto
    have "(\<exists>j. start \<le> j \<and> j \<le> end \<and> split_at node str start end j) \<longleftrightarrow> segmentable node str start end"
      using segmentable_split [of start "end" str node] split_at_segmentable [of start "end" str _ node] 2 False
      by (auto simp: split_at_def)
    with p unf show ?thesis by simp
  qed
qed

lemma concatWord_correct:
  assumes "lowercase str" "0 \<le> start" "end < int (length str)" "end < INT_MAX"
  shows "\<exists>cnt res. concatWord node str start end = Some (cnt, res) \<and>
           (res \<longleftrightarrow> segmentable node str start end) \<and>
           sound_result node str start end cnt res"
  using assms by (rule concatWord_mutual_correct(2))

text \<open>
  Claim C9. On a lowercase word and a valid range \<open>concatWord\<close> returns, and its two
  results are linked: \<open>result\<close> is false exactly when the count is \<open>0\<close>; and when
  \<open>result\<close> is true the count \<open>n\<close> is at least \<open>1\<close> and the range is the concatenation of
  exactly \<open>n\<close> non-empty strings, each a terminal word of the trie.
\<close>

theorem concatWord_count_witnessed:
  assumes "lowercase str" "valid_range str start end"
  shows "\<exists>cnt res. concatWord node str start end = Some (cnt, res) \<and>
           (res = False \<longleftrightarrow> cnt = 0) \<and>
           (res \<longrightarrow> 1 \<le> cnt \<and> pieces node str start end (nat cnt))"
proof -
  have v: "0 \<le> start" "end < int (length str)" "end < INT_MAX"
    using valid_rangeD [OF assms(2)] by auto
  from concatWord_correct [OF assms(1) v, of node]
  obtain cnt res where "concatWord node str start end = Some (cnt, res)"
    "sound_result node str start end cnt res"
    by blast
  then show ?thesis
    by (cases res) (auto simp: sound_result_def)
qed

theorem concatWord_count_witnessed_witness:
  "lowercase ''catsdog'' \<and> valid_range ''catsdog'' 0 6 \<and>
   concatWord (the (insertWords create [''cat'', ''cats'', ''dog''])) ''catsdog'' 0 6 = Some (2, True) \<and>
   pieces (the (insertWords create [''cat'', ''cats'', ''dog''])) ''catsdog'' 0 6 2"
proof -
  define t where "t = the (insertWords create [''cat'', ''cats'', ''dog''])"
  have l: "lowercase ''catsdog''" by code_simp
  have v: "valid_range ''catsdog'' 0 6" by code_simp
  have r: "concatWord t ''catsdog'' 0 6 = Some (2, True)" unfolding t_def by code_simp
  from concatWord_count_witnessed [OF l v, of t] r
  have "pieces t ''catsdog'' 0 6 2" by auto
  with l v r show ?thesis unfolding t_def by blast
qed

lemma concat_without_empty: "concat (filter (\<lambda>p. p \<noteq> []) ps) = concat ps"
  by (induction ps) simp_all

lemma segmentable_iff_partition:
  assumes "\<And>s. terminal node s \<longleftrightarrow> s \<in> D" "substring str start end \<noteq> []"
  shows "segmentable node str start end \<longleftrightarrow>
           (\<exists>ps. ps \<noteq> [] \<and> concat ps = substring str start end \<and> set ps \<subseteq> D)"
proof
  assume "segmentable node str start end"
  then obtain ps where ps: "1 \<le> length ps"
    "list_all (\<lambda>p. p \<noteq> [] \<and> terminal node p) ps" "concat ps = substring str start end"
    unfolding segmentable_def pieces_def by blast
  from ps(1) have "ps \<noteq> []" by auto
  moreover from ps(2) assms(1) have "set ps \<subseteq> D"
    by (auto simp: list_all_iff)
  ultimately show "\<exists>ps. ps \<noteq> [] \<and> concat ps = substring str start end \<and> set ps \<subseteq> D"
    using ps(3) by blast
next
  assume "\<exists>ps. ps \<noteq> [] \<and> concat ps = substring str start end \<and> set ps \<subseteq> D"
  then obtain ps where ps: "concat ps = substring str start end" "set ps \<subseteq> D"
    by blast
  let ?qs = "filter (\<lambda>p. p \<noteq> []) ps"
  have c: "concat ?qs = substring str start end"
    using ps(1) by (simp add: concat_without_empty)
  with assms(2) have "?qs \<noteq> []" by auto
  then have "1 \<le> length ?qs" by (cases ?qs) auto
  moreover have "list_all (\<lambda>p. p \<noteq> [] \<and> terminal node p) ?qs"
    using ps(2) assms(1) by (auto simp: list_all_iff)
  ultimately show "segmentable node str start end"
    unfolding segmentable_def pieces_def using c by blast
qed

text \<open>
  Claim C1. For a dictionary \<open>D\<close> of lowercase words inserted into the empty trie, a
  lowercase word and a valid range of it, \<open>concatWord\<close> returns, and its \<open>result\<close> is true
  if and only if the range is the concatenation of one or more strings that are all
  words of \<open>D\<close>. In particular it is true when the range itself is a word of \<open>D\<close>; a
  range that is not in \<open>D\<close> but splits into words of \<open>D\<close> is found as well.
\<close>

theorem concatWord_found_iff_partition:
  assumes "list_all lowercase D" "lowercase word" "valid_range word start end"
  shows "\<exists>node cnt found.
           insertWords create D = Some node \<and>
           concatWord node word start end = Some (cnt, found) \<and>
           (found \<longleftrightarrow> (\<exists>ps. ps \<noteq> [] \<and> concat ps = substring word start end \<and> set ps \<subseteq> set D)) \<and>
           (substring word start end \<in> set D \<longrightarrow> found)"
proof -
  from insertWords_paths [OF assms(1), of create]
  obtain node where n: "insertWords create D = Some node"
    and t: "\<And>s. terminal node s \<longleftrightarrow> s \<in> set D"
    by (auto simp: terminal_create)
  have v: "0 \<le> start" "start \<le> end" "end < int (length word)" "end < INT_MAX"
    using valid_rangeD [OF assms(3)] by auto
  have ne: "substring word start end \<noteq> []"
    using length_substring [OF v(1,3)] v(2) by auto
  from concatWord_correct [OF assms(2) v(1,3,4), of node]
  obtain cnt found where c: "concatWord node word start end = Some (cnt, found)"
    "found \<longleftrightarrow> segmentable node word start end"
    by blast
  have iff: "found \<longleftrightarrow> (\<exists>ps. ps \<noteq> [] \<and> concat ps = substring word start end \<and> set ps \<subseteq> set D)"
    unfolding c(2) using t ne by (rule segmentable_iff_partition)
  have "found" if "substring word start end \<in> set D"
    unfolding iff using that by (intro exI [of _ "[substring word start end]"]) simp
  with n c(1) iff show ?thesis by blast
qed

theorem concatWord_found_iff_partition_witness:
  "list_all lowercase [''cat'', ''cats'', ''dog''] \<and> lowercase ''catsdog'' \<and>
   valid_range ''catsdog'' 0 6 \<and> ''catsdog'' \<notin> set [''cat'', ''cats'', ''dog''] \<and>
   concatWord (the (insertWords create [''cat'', ''cats'', ''dog''])) ''catsdog'' 0 6 = Some (2, True) \<and>
   (\<exists>ps. ps \<noteq> [] \<and> concat ps = substring ''catsdog'' 0 6 \<and>
         set ps \<subseteq> set [''cat'', ''cats'', ''dog''])"
proof -
  define D where "D = [''cat'', ''cats'', ''dog'']"
  have l: "list_all lowercase D" unfolding D_def by code_simp
  have w: "lowercase ''catsdog''" by code_simp
  have v: "valid_range ''catsdog'' 0 6" by code_simp
  have a: "''catsdog'' \<notin> set D" unfolding D_def by simp
  have r: "concatWord (the (insertWords create D)) ''catsdog'' 0 6 = Some (2, True)"
    unfolding D_def by code_simp
  from concatWord_found_iff_partition [OF l w v] r
  have "\<exists>ps. ps \<noteq> [] \<and> concat ps = substring ''catsdog'' 0 6 \<and> set ps \<subseteq> set D"
    by auto
  with l w v a r show ?thesis unfolding D_def by blast
qed

section \<open>Membership and repeated insertion\<close>

lemma substring_whole: "substring w 0 (int (length w) - 1) = w"
  by (simp add: substring_def)

text \<open>
  Claim C5. Let a lowercase word \<open>w\<close> be among the lowercase words inserted into a trie,
  before or after any others. Then the exact-match lookup, \<open>isLeafBreak\<close> on the whole
  word with \<open>mid = length - 1\<close>, returns true, with the break at \<open>length - 1\<close>. The length
  of the word is an \<open>int\<close> of the program.
\<close>

theorem inserted_word_found:
  assumes "list_all lowercase ws" "w \<in> set ws" "int (length w) \<le> INT_MAX"
  shows "\<exists>node'. insertWords node ws = Some node' \<and>
           isLeafBreak node' w 0 (int (length w) - 1) (int (length w) - 1) =
             Some (True, int (length w) - 1)"
proof -
  let ?e = "int (length w) - 1"
  from insertWords_paths [OF assms(1), of node] assms(2)
  obtain node' where n: "insertWords node ws = Some node'" and t: "terminal node' w"
    by blast
  have "isLeafBreak node' w 0 ?e ?e = Some (True, ?e)"
  proof (cases "w = []")
    case True
    with t show ?thesis
      by (simp add: isLeafBreak_def isLeafBreak_loop.simps terminal_Nil)
  next
    case False
    have l: "lowercase w"
      using assms(1,2) by (simp add: list_all_iff)
    have v: "valid_range w 0 ?e"
      using False assms(3) by (simp add: valid_range_def)
    from l v obtain b mid' where r: "isLeafBreak node' w 0 ?e ?e = Some (b, mid')"
      and tt: "b \<Longrightarrow> 0 \<le> mid' \<and> mid' \<le> ?e \<and> terminal node' (substring w 0 mid') \<and>
         ((?e \<le> mid' \<and> (\<forall>k. 0 \<le> k \<and> k < mid' \<and> ?e \<le> k \<longrightarrow> \<not> terminal node' (substring w 0 k))) \<or>
          (mid' = ?e \<and> ?e < ?e))"
      and ff: "\<not> b \<Longrightarrow> (\<forall>k. 0 \<le> k \<and> k \<le> ?e \<and> ?e \<le> k \<longrightarrow> \<not> terminal node' (substring w 0 k)) \<and>
         ((mid' = ?e \<and> \<not> reachable node' (substring w 0 ?e)) \<or>
          (mid' = ?e \<and> reachable node' (substring w 0 ?e) \<and> \<not> terminal node' (substring w 0 ?e)))"
      by (rule isLeafBreak_result [of w 0 ?e node' ?e]) blast
    have b
    proof (rule ccontr)
      assume "\<not> b"
      from ff [OF this] have "\<not> terminal node' (substring w 0 ?e)"
        using False by auto
      with t show False by (simp add: substring_whole)
    qed
    with tt have "mid' = ?e" by auto
    with r \<open>b\<close> show ?thesis by simp
  qed
  with n show ?thesis by blast
qed

theorem inserted_word_found_witness:
  "list_all lowercase [''cat'', ''cats'', ''dog''] \<and> ''cats'' \<in> set [''cat'', ''cats'', ''dog''] \<and>
   int (length ''cats'') \<le> INT_MAX \<and>
   (\<exists>node'. insertWords create [''cat'', ''cats'', ''dog''] = Some node' \<and>
      isLeafBreak node' ''cats'' 0 3 3 = Some (True, 3))"
proof -
  have l: "list_all lowercase [''cat'', ''cats'', ''dog'']" by code_simp
  have m: "''cats'' \<in> set [''cat'', ''cats'', ''dog'']" by simp
  have n: "int (length ''cats'') \<le> INT_MAX" by code_simp
  from inserted_word_found [OF l m n, of create] l m n show ?thesis by simp
qed

lemma insertWord_again: "insertWord node w = Some node' \<Longrightarrow> insertWord node' w = Some node'"
proof (induction w arbitrary: node node')
  case Nil
  then show ?case by auto
next
  case (Cons c w)
  show ?case
  proof (cases "c = CHR 0x00")
    case True
    with Cons.prems show ?thesis by auto
  next
    case False
    let ?ch = "char_index c"
    let ?sub = "case character node ?ch of None \<Rightarrow> create | Some edge \<Rightarrow> edge"
    from Cons.prems False have a: "in_alphabet ?ch"
      by (auto simp: Let_def split: if_splits)
    with Cons.prems False obtain edge where e: "insertWord ?sub w = Some edge"
      and n: "node' = Trie (isLeaf node) ((character node)(?ch := Some edge))"
      by (auto simp: Let_def split: option.splits)
    from Cons.IH [OF e] have "insertWord edge w = Some edge" .
    with False a n show ?thesis by simp
  qed
qed

lemma insertWords_same_again:
  "insertWord node' w = Some node' \<Longrightarrow> insertWords node' (replicate n w) = Some node'"
  by (induction n) simp_all

lemma insertWords_replicate:
  assumes "insertWord node w = Some node'"
  shows "insertWords node (replicate (Suc n) w) = Some node'"
  using assms insertWords_same_again [OF insertWord_again [OF assms], of n] by simp

text \<open>
  Claim C8. Inserting a lowercase word a second time, or any number of further times,
  gives a trie on which every \<open>isLeafBreak\<close> query and every \<open>concatWord\<close> query returns
  what it returns on the trie with the word inserted once.
\<close>

theorem insertWord_idempotent:
  assumes "lowercase w"
  shows "\<exists>once. insertWord node w = Some once \<and>
           (\<forall>n. \<exists>again. insertWords node (replicate (Suc (Suc n)) w) = Some again \<and>
              (\<forall>str start end mid. isLeafBreak again str start end mid = isLeafBreak once str start end mid) \<and>
              (\<forall>str start end. concatWord again str start end = concatWord once str start end))"
proof -
  from insertWord_paths [OF assms, of node] obtain once where o: "insertWord node w = Some once"
    by blast
  have "insertWords node (replicate (Suc (Suc n)) w) = Some once" for n
    using o by (rule insertWords_replicate)
  with o show ?thesis by blast
qed

theorem insertWord_idempotent_witness:
  "lowercase ''cat'' \<and>
   (\<exists>once. insertWord create ''cat'' = Some once \<and>
      (\<exists>again. insertWords create [''cat'', ''cat'', ''cat''] = Some again \<and>
         isLeafBreak again ''cat'' 0 2 0 = isLeafBreak once ''cat'' 0 2 0 \<and>
         concatWord again ''catcat'' 0 5 = concatWord once ''catcat'' 0 5))"
proof -
  have l: "lowercase ''cat''" by code_simp
  from insertWord_idempotent [OF l, of create] obtain once where
    o: "insertWord create ''cat'' = Some once"
    and a: "\<And>n. \<exists>again. insertWords create (replicate (Suc (Suc n)) ''cat'') = Some again \<and>
              (\<forall>str start end mid. isLeafBreak again str start end mid = isLeafBreak once str start end mid) \<and>
              (\<forall>str start end. concatWord again str start end = concatWord once str start end)"
    by blast
  have "replicate (Suc (Suc (Suc 0))) ''cat'' = [''cat'', ''cat'', ''cat'']" by simp
  with a [of "Suc 0"] obtain again where
    "insertWords create [''cat'', ''cat'', ''cat''] = Some again"
    "isLeafBreak again ''cat'' 0 2 0 = isLeafBreak once ''cat'' 0 2 0"
    "concatWord again ''catcat'' 0 5 = concatWord once ''catcat'' 0 5"
    by metis
  with l o show ?thesis by blast
qed

section \<open>The procedure of the specification\<close>

text \<open>
  Claim C3 says that \<open>concatWord\<close> computes what the procedure of section 4.2 computes,
  with \<open>i\<close> in the test \<open>i == end\<close> and in the recursive call on \<open>i + 1\<close> being the candidate
  split point of the iteration. With the dictionary \<open>ab\<close>, \<open>bc\<close> and the word \<open>abc\<close> that
  procedure finds \<open>ab\<close> from candidate \<open>0\<close>, recurses on \<open>bc\<close> and answers (true, 2);
  \<open>concatWord\<close> recurses on what follows \<open>ab\<close> and answers (false, 0).
\<close>

theorem canSegment_spec_differs:
  "concatWord (the (insertWords create [''ab'', ''bc''])) ''abc'' 0 2 = Some (0, False) \<and>
   canSegment_spec (the (insertWords create [''ab'', ''bc''])) ''abc'' 0 2 = (True, 2)"
  by code_simp

lemma stops_mono: "i \<le> k \<Longrightarrow> stops node word start k j \<Longrightarrow> stops node word start i j"
  by (auto simp: stops_def)

lemma findBreak_spec_fails_later:
  assumes "findBreak_spec node word start end i = None" "i \<le> k"
  shows "findBreak_spec node word start end k = None"
proof (cases "find (stops node word start i) [start..end]")
  case None
  then have "\<not> stops node word start i j" if "start \<le> j" "j \<le> end" for j
    using that by (auto dest: find_upto_NoneD)
  then have "\<forall>j. start \<le> j \<and> j \<le> end \<longrightarrow> \<not> stops node word start k j"
    using stops_mono [OF assms(2)] by blast
  then have "find (stops node word start k) [start..end] = None"
    by (rule find_upto_None)
  with None assms(1) show ?thesis
    by (simp add: findBreak_spec_def split: if_splits)
next
  case (Some p)
  with assms(1) have nr: "\<not> reachable node (substring word start p)"
    by (simp add: findBreak_spec_def split: if_splits)
  from find_upto_SomeD [OF Some] have p: "start \<le> p" "p \<le> end"
    and first: "\<And>q. start \<le> q \<Longrightarrow> q < p \<Longrightarrow> \<not> stops node word start i q"
    by auto
  have "stops node word start k p"
    using nr by (simp add: stops_def)
  with p obtain p' where p': "find (stops node word start k) [start..end] = Some p'" "p' \<le> p"
    using find_upto_first [of start p "end" "stops node word start k"] by blast
  from find_upto_SomeD [OF p'(1)] have "start \<le> p'" "stops node word start k p'"
    by auto
  with first [of p'] stops_mono [OF assms(2)] p'(2) have "p' = p"
    by (cases "p' < p") auto
  with p'(1) nr show ?thesis
    by (simp add: findBreak_spec_def)
qed

lemma canSegment_amended_from_fails:
  assumes "findBreak_spec node word start end i = None"
  shows "canSegment_amended_from node word start end i = (False, 0)"
  using assms
proof (induction "nat (end + 1 - i)" arbitrary: i)
  case 0
  then show ?case
    by (subst canSegment_amended_from.simps) simp
next
  case (Suc n)
  then have ile: "i \<le> end" by simp
  show ?case
  proof (cases "i = end")
    case True
    with Suc.prems show ?thesis
      by (subst canSegment_amended_from.simps) simp
  next
    case False
    have "findBreak_spec node word start end (i + 1) = None"
      using Suc.prems by (rule findBreak_spec_fails_later) simp
    moreover have "n = nat (end + 1 - (i + 1))"
      using Suc.hyps(2) by simp
    ultimately have "canSegment_amended_from node word start end (i + 1) = (False, 0)"
      by (rule Suc.hyps(1) [rotated])
    with Suc.prems False ile show ?thesis
      by (subst canSegment_amended_from.simps) (simp split: prod.splits)
  qed
qed

lemma concatWord_mutual_refines:
  "lowercase str \<Longrightarrow> valid_range str start end \<Longrightarrow> start \<le> i \<Longrightarrow>
     concatWord_loop node str start end i =
       Some (snd (canSegment_amended_from node str start end i),
             fst (canSegment_amended_from node str start end i))"
  "lowercase str \<Longrightarrow> 0 \<le> start \<Longrightarrow> end < int (length str) \<Longrightarrow> end < INT_MAX \<Longrightarrow>
     concatWord node str start end =
       Some (snd (canSegment_amended node str start end),
             fst (canSegment_amended node str start end))"
proof (induction node str start "end" i and node str start "end" rule: concatWord_loop_concatWord.induct)
  case (1 node str start "end" i)
  note low = \<open>lowercase str\<close> and vr = \<open>valid_range str start end\<close>
  have v: "0 \<le> start" "start \<le> end" "end < int (length str)" "end < INT_MAX"
    using valid_rangeD [OF vr] by auto
  let ?fb = "findBreak_spec node str start end i"
  show ?case
  proof (cases "i \<le> end")
    case False
    then have "canSegment_amended_from node str start end i = (False, 0)"
      by (subst canSegment_amended_from.simps) simp
    with False show ?thesis
      by (subst concatWord_loop.simps) simp
  next
    case ile: True
    from isLeafBreak_eq_spec [OF low v(1,3,4), of node i]
    obtain b mid' where r: "isLeafBreak node str start end i = Some (b, mid')"
      and bf: "b \<longleftrightarrow> ?fb \<noteq> None"
      and bt: "b \<Longrightarrow> ?fb = Some mid'"
      and bn: "\<not> b \<Longrightarrow> mid' = i \<or> mid' = end"
      by blast
    have unf: "concatWord_loop node str start end i =
        (if mid' = end then Some (if b then 1 else 0, b)
         else
           (case concatWord node str (mid' + 1) end of
              None \<Rightarrow> None
            | Some (cntWords, bPartTwo) \<Rightarrow>
                if b \<and> bPartTwo then Some (1 + cntWords, True)
                else concatWord_loop node str start end (mid' + 1)))"
      using ile r by (subst concatWord_loop.simps) simp
    have ge: "i \<le> mid'"
      using bt bn ile findBreak_spec_ge [of node str start "end" i mid'] by (cases b) auto
    have follow: "canSegment_amended_from node str start end i =
        (if mid' = end then (b, if b then 1 else 0)
         else
           (case canSegment_amended node str (mid' + 1) end of
              (secondPieceFound, restCount) \<Rightarrow>
                if b \<and> secondPieceFound then (True, 1 + restCount)
                else canSegment_amended_from node str start end (mid' + 1)))"
      if "b \<or> mid' = i"
      using that ile bf bt
      by (subst canSegment_amended_from.simps) (auto simp: Let_def split: prod.splits)
    show ?thesis
    proof (cases "mid' = end")
      case True
      show ?thesis
      proof (cases "b \<or> mid' = i")
        case True
        with follow \<open>mid' = end\<close> unf show ?thesis by simp
      next
        case False
        with bf have "?fb = None" by simp
        then have "canSegment_amended_from node str start end i = (False, 0)"
          by (rule canSegment_amended_from_fails)
        with unf \<open>mid' = end\<close> False show ?thesis by simp
      qed
    next
      case ne: False
      with bn have bi: "b \<or> mid' = i" by auto
      have q: "concatWord node str (mid' + 1) end =
          Some (snd (canSegment_amended node str (mid' + 1) end),
                fst (canSegment_amended node str (mid' + 1) end))"
        using "1.IH"(1) [OF ile r refl ne low] v ge \<open>start \<le> i\<close> by simp
      show ?thesis
      proof (cases "b \<and> fst (canSegment_amended node str (mid' + 1) end)")
        case True
        with unf follow [OF bi] ne q show ?thesis
          by (simp split: prod.splits)
      next
        case False
        have p: "concatWord_loop node str start end (mid' + 1) =
            Some (snd (canSegment_amended_from node str start end (mid' + 1)),
                  fst (canSegment_amended_from node str start end (mid' + 1)))"
          using "1.IH"(2) [OF ile r refl ne q refl _ low vr] False ge \<open>start \<le> i\<close> by simp
        with unf follow [OF bi] ne q False show ?thesis
          by (auto split: prod.splits)
      qed
    qed
  qed
next
  case (2 node str start "end")
  show ?case
  proof (cases "end < start")
    case True
    then show ?thesis
      by (simp add: concatWord.simps canSegment_amended.simps)
  next
    case False
    then have vr: "valid_range str start end"
      using 2 by (simp add: valid_range_def)
    from "2.IH" [OF False \<open>lowercase str\<close> vr] False show ?thesis
      by (simp add: concatWord.simps canSegment_amended.simps)
  qed
qed

text \<open>
  Claim C3, amended. On a lowercase word and a valid range \<open>concatWord\<close> returns exactly
  what the procedure of section 4.2 returns once the split point \<open>i\<close> is advanced to the
  break position reported by a successful \<open>findBreak\<close>, before the test \<open>i == end\<close>, the
  recursive call on \<open>i + 1\<close> and the next candidate; \<open>findBreak\<close> here is the declarative
  \<open>findBreak_spec\<close>, not the loop of the program.
\<close>

theorem concatWord_refines_amended:
  assumes "lowercase str" "valid_range str start end"
  shows "concatWord node str start end =
           Some (snd (canSegment_amended node str start end),
                 fst (canSegment_amended node str start end))"
  using assms valid_rangeD [OF assms(2)] by (intro concatWord_mutual_refines(2)) auto

theorem concatWord_refines_amended_witness:
  "lowercase ''abc'' \<and> valid_range ''abc'' 0 2 \<and>
   canSegment_amended (the (insertWords create [''ab'', ''bc''])) ''abc'' 0 2 = (False, 0) \<and>
   concatWord (the (insertWords create [''ab'', ''bc''])) ''abc'' 0 2 = Some (0, False)"
proof -
  define t where "t = the (insertWords create [''ab'', ''bc''])"
  have l: "lowercase ''abc''" by code_simp
  have v: "valid_range ''abc'' 0 2" by code_simp
  have a: "canSegment_amended t ''abc'' 0 2 = (False, 0)" unfolding t_def by code_simp
  from concatWord_refines_amended [OF l v, of t] a
  have "concatWord t ''abc'' 0 2 = Some (0, False)" by simp
  with l v a show ?thesis unfolding t_def by blast
qed

section \<open>The driver\<close>

lemma ReadWordFile_loop_eq:
  "list_all lowercase ws \<Longrightarrow>
     \<exists>root'. insertWords root ws = Some root' \<and>
       ReadWordFile_loop ws (root, wordsWithSameLen, LengthSet, cntWords) =
         Some (root',
               (\<lambda>len. wordsWithSameLen len @ filter (\<lambda>w. length w = len) ws),
               LengthSet \<union> length ` set ws,
               cntWords + int (length ws))"
proof (induction ws arbitrary: root wordsWithSameLen LengthSet cntWords)
  case Nil
  then show ?case by simp
next
  case (Cons w ws)
  then have w: "lowercase w" and ws: "list_all lowercase ws" by simp_all
  from insertWord_paths [OF w, of root] obtain r1 where r1: "insertWord root w = Some r1"
    by blast
  let ?m = "wordsWithSameLen(length w := wordsWithSameLen (length w) @ [w])"
  from Cons.IH [OF ws, of r1 ?m "insert (length w) LengthSet" "cntWords + 1"]
  obtain root' where r: "insertWords r1 ws = Some root'"
    "ReadWordFile_loop ws (r1, ?m, insert (length w) LengthSet, cntWords + 1) =
       Some (root', (\<lambda>len. ?m len @ filter (\<lambda>w. length w = len) ws),
             insert (length w) LengthSet \<union> length ` set ws, cntWords + 1 + int (length ws))"
    by blast
  have m: "(\<lambda>len. ?m len @ filter (\<lambda>w. length w = len) ws) =
           (\<lambda>len. wordsWithSameLen len @ filter (\<lambda>v. length v = len) (w # ws))"
    by (rule ext) simp
  show ?case
    using r1 r unfolding m by (intro exI [of _ root']) simp
qed

lemma report_words_eq:
  "list_all (\<lambda>w. concatWord root w 0 (int (length w) - 1) \<noteq> None) dict \<Longrightarrow>
     report_words root dict = Some (filter (qualifies root) dict)"
  by (induction dict) (auto simp: qualifies_def split: option.splits)

lemma report_lengths_eq:
  "list_all (\<lambda>len. list_all (\<lambda>w. concatWord root w 0 (int (length w) - 1) \<noteq> None) (m len)) lens \<Longrightarrow>
     report_lengths root m lens = Some (concat (map (\<lambda>len. filter (qualifies root) (m len)) lens))"
  by (induction lens) (simp_all add: report_words_eq)

lemma concatWord_whole_word_returns:
  assumes "lowercase w" "int (length w) \<le> INT_MAX"
  shows "concatWord root w 0 (int (length w) - 1) \<noteq> None"
  using concatWord_correct [OF assms(1), of 0 "int (length w) - 1" root] assms(2) by auto

lemma filter_length_groups:
  assumes "distinct lens" "\<And>len. \<forall>w\<in>set (G len). length w = len"
  shows "filter (\<lambda>w. length w = n) (concat (map G lens)) = (if n \<in> set lens then G n else [])"
  using assms(1)
proof (induction lens)
  case Nil
  then show ?case by simp
next
  case (Cons len lens)
  have "filter (\<lambda>w. length w = n) (G len) = (if len = n then G n else [])"
    using assms(2) [of len] by (auto simp: filter_empty_conv intro: filter_True)
  with Cons show ?case by auto
qed

lemma sorted_length_groups:
  assumes "sorted_wrt (\<lambda>a b. b < a) lens" "\<And>len. \<forall>w\<in>set (G len). length w = len"
  shows "sorted_wrt (\<lambda>a b. length b \<le> length a) (concat (map G lens))"
  using assms(1)
proof (induction lens)
  case Nil
  then show ?case by simp
next
  case (Cons len lens)
  have "sorted_wrt (\<lambda>a b. length b \<le> length a) (G len)"
    using assms(2) [of len] by (simp add: sorted_wrt_iff_nth_less)
  moreover have "length y \<le> length x" if "x \<in> set (G len)" "y \<in> set (concat (map G lens))" for x y
  proof -
    from that(2) obtain k where "k \<in> set lens" "y \<in> set (G k)" by auto
    with Cons.prems assms(2) [of k] assms(2) [of len] that(1) show ?thesis
      by fastforce
  qed
  ultimately show ?case
    using Cons by (simp add: sorted_wrt_append)
qed

text \<open>
  Claim C6. For lowercase input words whose lengths are \<open>int\<close>s of the program, the
  loader and the reporting loops return, the trie is the one built from the words, and
  a word is written to the output exactly when it is an input word for which
  \<open>concatWord\<close> on the whole word returns \<open>result = true\<close> with a count above \<open>1\<close>. The
  output goes from the longest length down to the shortest, and the words of one length
  appear in the order in which the loader stored them, which is the input order.
\<close>

theorem main_output_order:
  assumes "list_all (\<lambda>w. lowercase w \<and> int (length w) \<le> INT_MAX) ws"
  shows "\<exists>root wordsWithSameLen LengthSet cntWords out.
     ReadWordFile ws = Some (root, wordsWithSameLen, LengthSet, cntWords) \<and>
     insertWords create ws = Some root \<and>
     main_output ws = Some out \<and>
     (\<forall>w. w \<in> set out \<longleftrightarrow> w \<in> set ws \<and> qualifies root w) \<and>
     sorted_wrt (\<lambda>a b. length b \<le> length a) out \<and>
     (\<forall>len. filter (\<lambda>w. length w = len) out =
            filter (qualifies root) (filter (\<lambda>w. length w = len) ws))"
proof -
  have low: "list_all lowercase ws"
    using assms by (simp add: list_all_iff)
  let ?m = "\<lambda>len. filter (\<lambda>w. length w = len) ws"
  let ?L = "length ` set ws"
  let ?lens = "rev (sorted_list_of_set ?L)"
  from ReadWordFile_loop_eq [OF low, of create "\<lambda>len. []" "{}" 0]
  obtain root where root: "insertWords create ws = Some root"
    and rd: "ReadWordFile ws = Some (root, ?m, ?L, int (length ws))"
    by (auto simp: ReadWordFile_def)
  let ?G = "\<lambda>len. filter (qualifies root) (?m len)"
  let ?out = "concat (map ?G ?lens)"
  have ret: "concatWord root w 0 (int (length w) - 1) \<noteq> None" if "w \<in> set ws" for w
    using that assms by (intro concatWord_whole_word_returns) (auto simp: list_all_iff)
  have "list_all (\<lambda>w. concatWord root w 0 (int (length w) - 1) \<noteq> None) (?m len)" for len
    unfolding list_all_iff
  proof
    fix w
    assume "w \<in> set (?m len)"
    then have "w \<in> set ws" by simp
    then show "concatWord root w 0 (int (length w) - 1) \<noteq> None" by (rule ret)
  qed
  then have "list_all (\<lambda>len. list_all (\<lambda>w. concatWord root w 0 (int (length w) - 1) \<noteq> None) (?m len)) ?lens"
    unfolding list_all_iff [of _ ?lens] by blast
  then have "report_lengths root ?m ?lens = Some ?out"
    by (rule report_lengths_eq)
  then have out: "main_output ws = Some ?out"
    using rd by (simp add: main_output_def)
  have G: "\<forall>w\<in>set (?G len). length w = len" for len
    by simp
  have fin: "finite ?L" by simp
  have d: "distinct ?lens" by simp
  have s: "sorted_wrt (\<lambda>a b. b < a) ?lens"
    by (simp add: sorted_wrt_rev)
  have setl: "set ?lens = ?L" by simp
  have grp: "filter (\<lambda>w. length w = len) ?out = ?G len" for len
  proof -
    have "filter (\<lambda>w. length w = len) ?out = (if len \<in> set ?lens then ?G len else [])"
      using d G by (rule filter_length_groups)
    moreover have "?G len = []" if "len \<notin> set ?lens"
      using that unfolding setl by (auto simp: filter_empty_conv)
    ultimately show ?thesis by auto
  qed
  have mem: "w \<in> set ?out \<longleftrightarrow> w \<in> set ws \<and> qualifies root w" for w
  proof -
    have "w \<in> set ?out \<longleftrightarrow> w \<in> set (filter (\<lambda>v. length v = length w) ?out)"
      by simp
    also have "\<dots> \<longleftrightarrow> w \<in> set (?G (length w))"
      unfolding grp ..
    finally show ?thesis by auto
  qed
  have srt: "sorted_wrt (\<lambda>a b. length b \<le> length a) ?out"
    using s G by (rule sorted_length_groups)
  from rd root out mem srt grp show ?thesis by blast
qed

theorem main_output_order_witness:
  "list_all (\<lambda>w. lowercase w \<and> int (length w) \<le> INT_MAX) [''a'', ''b'', ''ab'', ''cat'', ''aab'', ''ba''] \<and>
   main_output [''a'', ''b'', ''ab'', ''cat'', ''aab'', ''ba''] = Some [''aab'', ''ab'', ''ba''] \<and>
   sorted_wrt (\<lambda>a b. length b \<le> length a) [''aab'', ''ab'', ''ba'']"
proof -
  define ws where "ws = [''a'', ''b'', ''ab'', ''cat'', ''aab'', ''ba'']"
  have l: "list_all (\<lambda>w. lowercase w \<and> int (length w) \<le> INT_MAX) ws"
    unfolding ws_def by code_simp
  have o: "main_output ws = Some [''aab'', ''ab'', ''ba'']"
    unfolding ws_def by code_simp
  from main_output_order [OF l] o
  have "sorted_wrt (\<lambda>a b. length b \<le> length a) [''aab'', ''ab'', ''ba'']"
    by auto
  with l o show ?thesis unfolding ws_def by blast
qed

section \<open>The empty range\<close>

text \<open>
  Claim C7. On an empty range (\<open>start > end\<close>) \<open>concatWord\<close> returns the count \<open>0\<close> with
  \<open>result = false\<close>, and it does so without looking at the trie or at the word: the
  value is the same for any other trie and any other word.
\<close>

theorem concatWord_empty_range:
  "end < start \<Longrightarrow>
     concatWord node str start end = Some (0, False) \<and>
     concatWord node' str' start end = concatWord node str start end"
  by (simp add: concatWord.simps)

theorem concatWord_empty_range_witness:
  "(2::int) < 3 \<and> concatWord create ''abc'' 3 2 = Some (0, False) \<and>
   concatWord (Trie True (\<lambda>i. None)) ''xyz'' 3 2 = concatWord create ''abc'' 3 2"
  using concatWord_empty_range [of 2 3 create "''abc''" "Trie True (\<lambda>i. None)" "''xyz''"]
  by simp

end
